theory Spec2Isabelle
  imports Complex_Main "HOL-Library.AList"
begin

section \<open>Amino-acid feature tables (protmodel/aafeatures.py)\<close>

text \<open>
  The development embeds \<^verbatim>\<open>_res_to_feature_helper\<close> of \<^verbatim>\<open>aafeatures.py\<close>: the parser of
  the raw text table, the synonym and ambiguity expansion, the renormalisation loop and
  the entry for the missing residue.

  Python strings are lists of characters; the model covers code points below 256, which
  is what \<^typ>\<open>char\<close> holds. Exceptions are values of a sum type. A numpy array is an
  object with an identity: the dictionary holds references (addresses) into a heap of
  arrays, so that two keys bound to one array are told apart from two keys bound to equal
  arrays.
\<close>

subsection \<open>Text: lines and whitespace-separated fields\<close>

text \<open>
  \<^verbatim>\<open>str.isspace\<close> on the code points below 256: tab, line feed, vertical tab, form feed,
  carriage return, the four separators 0x1C to 0x1F, space, NEL and the no-break space.
\<close>

definition isspace :: "char \<Rightarrow> bool" where
  "isspace c \<longleftrightarrow> c \<in> set [CHR 0x09, CHR 0x0A, CHR 0x0B, CHR 0x0C, CHR 0x0D,
      CHR 0x1C, CHR 0x1D, CHR 0x1E, CHR 0x1F, CHR 0x20, CHR 0x85, CHR 0xA0]"

text \<open>
  Iterating over \<^verbatim>\<open>io.StringIO(feature_string)\<close> yields the lines of the text: a line ends
  with its line feed (which it keeps), the last line ends with the text. No line is empty.
\<close>

fun readlines :: "string \<Rightarrow> string list" where
  "readlines [] = []"
| "readlines (c # cs) =
     (if c = CHR 0x0A then [c] # readlines cs
      else (case readlines cs of [] \<Rightarrow> [[c]] | l # ls \<Rightarrow> (c # l) # ls))"

text \<open>
  \<^verbatim>\<open>line.split()\<close>: the text is cut at every whitespace character and the empty pieces
  are dropped, so runs of whitespace separate and leading and trailing whitespace vanish.
\<close>

fun pieces :: "string \<Rightarrow> string list" where
  "pieces [] = [[]]"
| "pieces (c # cs) =
     (if isspace c then [] # pieces cs
      else (case pieces cs of [] \<Rightarrow> [[c]] | w # ws \<Rightarrow> (c # w) # ws))"

definition split :: "string \<Rightarrow> string list" where
  "split s = filter (\<lambda>w. w \<noteq> []) (pieces s)"

subsection \<open>Errors, float32 arithmetic, the table\<close>

text \<open>
  The exceptions the function can raise: \<^verbatim>\<open>linearr[0]\<close> on an empty list, \<^verbatim>\<open>float(x)\<close> on a
  token that is no number (the token is kept), a dictionary lookup of an absent key (the
  key is kept), \<^verbatim>\<open>1.0/feature_count\<close> with no features, and \<^verbatim>\<open>np.mean\<close> of two arrays of
  different lengths where numpy refuses them.
\<close>

datatype error =
    IndexError
  | ValueError string
  | KeyError string
  | ZeroDivisionError
  | ShapeError

text \<open>
  The arithmetic of numpy's \<^verbatim>\<open>float32\<close> is a parameter of the model: \<open>np_float\<close> is
  \<^verbatim>\<open>float(x)\<close> followed by the conversion to \<^verbatim>\<open>FLOATTYPE\<close> (\<open>None\<close> when \<^verbatim>\<open>float\<close> raises
  ValueError), \<open>np_add\<close> and \<open>np_div\<close> are the element operations, \<open>np_sum\<close> is
  \<^verbatim>\<open>ndarray.sum\<close>, \<open>np_zero\<close> is \<^verbatim>\<open>0.0\<close>, \<open>np_count n\<close> the count \<open>n\<close> that \<^verbatim>\<open>np.mean\<close>
  divides by, and \<open>np_recip n\<close> is \<^verbatim>\<open>1.0/n\<close> for a positive \<open>n\<close>. Division is total, as in
  numpy with its default error handling, which the module does not change: dividing by
  zero gives an infinity or a NaN (and a warning), not an exception. The last field is \<^verbatim>\<open>np.mean\<close> of two rows of different lengths, which depends on the
  version of numpy: from 1.24 on it raises (\<open>None\<close>), before that it adds a row of one
  element to every element of the other. Nothing below depends on which it is.
\<close>

record 'f arith =
  np_float :: "string \<Rightarrow> 'f option"
  np_add :: "'f \<Rightarrow> 'f \<Rightarrow> 'f"
  np_div :: "'f \<Rightarrow> 'f \<Rightarrow> 'f"
  np_sum :: "'f list \<Rightarrow> 'f"
  np_zero :: "'f"
  np_count :: "nat \<Rightarrow> 'f"
  np_recip :: "nat \<Rightarrow> 'f"
  np_ragged :: "'f list \<Rightarrow> 'f list \<Rightarrow> 'f list option"

text \<open>
  The dictionary \<^verbatim>\<open>aa_to_aadist\<close> in insertion order, each key bound to the address of its
  array, and the heap of arrays; an address is an index into the heap.
\<close>

record 'f table =
  dict :: "(string \<times> nat) list"
  heap :: "'f list list"

definition empty_table :: "'f table" where
  "empty_table = \<lparr>dict = [], heap = []\<rparr>"

definition keys :: "'f table \<Rightarrow> string list" where
  "keys t = map fst (dict t)"

definition address :: "'f table \<Rightarrow> string \<Rightarrow> nat option" where
  "address t k = map_of (dict t) k"

definition array :: "'f table \<Rightarrow> string \<Rightarrow> 'f list option" where
  "array t k = (case address t k of None \<Rightarrow> None | Some a \<Rightarrow> Some (heap t ! a))"

text \<open>\<^verbatim>\<open>d[k]\<close> as an expression: the reference bound to the key, or KeyError.\<close>

definition getitem :: "'f table \<Rightarrow> string \<Rightarrow> error + nat" where
  "getitem t k = (case address t k of None \<Rightarrow> Inl (KeyError k) | Some a \<Rightarrow> Inr a)"

text \<open>\<^verbatim>\<open>d[k] = r\<close> with a reference \<open>r\<close> to an array that exists: only the binding changes.\<close>

definition setitem :: "'f table \<Rightarrow> string \<Rightarrow> nat \<Rightarrow> 'f table" where
  "setitem t k a = t\<lparr>dict := AList.update k a (dict t)\<rparr>"

text \<open>\<^verbatim>\<open>d[k] = <new array>\<close>: the array is allocated at the next free address and bound.\<close>

definition store :: "'f table \<Rightarrow> string \<Rightarrow> 'f list \<Rightarrow> 'f table" where
  "store t k v = \<lparr>dict = AList.update k (length (heap t)) (dict t), heap = heap t @ [v]\<rparr>"

subsection \<open>Parsing the raw table (lines 124 to 133)\<close>

text \<open>The list comprehension \<^verbatim>\<open>[ float(x) for x in linearr[1:] ]\<close>, left to right.\<close>

fun floats :: "'f arith \<Rightarrow> string list \<Rightarrow> error + 'f list" where
  "floats ops [] = Inr []"
| "floats ops (x # xs) =
     (case np_float ops x of
        None \<Rightarrow> Inl (ValueError x)
      | Some v \<Rightarrow> (case floats ops xs of Inl e \<Rightarrow> Inl e | Inr vs \<Rightarrow> Inr (v # vs)))"

text \<open>
  One turn of the loop over the lines. The loop state is the dictionary (with the heap)
  and \<^verbatim>\<open>feature_count\<close>.
\<close>

definition parse_line :: "'f arith \<Rightarrow> 'f table \<times> nat \<Rightarrow> string \<Rightarrow> error + 'f table \<times> nat" where
  "parse_line ops st line =
     (case line of
        [] \<Rightarrow> Inl IndexError
      | c # _ \<Rightarrow>
          if c = CHR ''#'' then Inr st
          else (case split line of
                  [] \<Rightarrow> Inl IndexError
                | aa # rest \<Rightarrow>
                    (case floats ops rest of
                       Inl e \<Rightarrow> Inl e
                     | Inr v \<Rightarrow> Inr (store (fst st) aa v, length v))))"

fun parse_lines :: "'f arith \<Rightarrow> 'f table \<times> nat \<Rightarrow> string list \<Rightarrow> error + 'f table \<times> nat" where
  "parse_lines ops st [] = Inr st"
| "parse_lines ops st (l # ls) =
     (case parse_line ops st l of Inl e \<Rightarrow> Inl e | Inr st' \<Rightarrow> parse_lines ops st' ls)"

definition parse :: "'f arith \<Rightarrow> string \<Rightarrow> error + 'f table \<times> nat" where
  "parse ops feature_string = parse_lines ops (empty_table, 0) (readlines feature_string)"

subsection \<open>Synonyms and ambiguous residues (lines 135 to 155)\<close>

text \<open>\<^verbatim>\<open>aa_to_aadist[new] = aa_to_aadist[old]\<close>: the new key refers to the same array.\<close>

definition add_synonym :: "string \<Rightarrow> string \<Rightarrow> 'f table \<Rightarrow> error + 'f table" where
  "add_synonym new old t =
     (case getitem t old of Inl e \<Rightarrow> Inl e | Inr a \<Rightarrow> Inr (setitem t new a))"

text \<open>The entry for X: \<^verbatim>\<open>np.full\<close> of \<^verbatim>\<open>1.0/feature_count\<close> or of \<^verbatim>\<open>0.0\<close>.\<close>

definition any_residue :: "'f arith \<Rightarrow> bool \<Rightarrow> nat \<Rightarrow> error + 'f list" where
  "any_residue ops average feature_count =
     (if average then
        (if feature_count = 0 then Inl ZeroDivisionError
         else Inr (replicate feature_count (np_recip ops feature_count)))
      else Inr (replicate feature_count (np_zero ops)))"

definition add_any :: "'f arith \<Rightarrow> bool \<Rightarrow> nat \<Rightarrow> 'f table \<Rightarrow> error + 'f table" where
  "add_any ops average feature_count t =
     (case any_residue ops average feature_count of
        Inl e \<Rightarrow> Inl e
      | Inr x \<Rightarrow> Inr (store t ''X'' x))"

text \<open>
  \<^verbatim>\<open>np.mean([v, w], axis=0)\<close> of two rows of one length: the sum of the two rows, element
  by element, divided by the count 2. Rows of different lengths make no rectangular array;
  what numpy does with them is the parameter \<open>np_ragged\<close>.
\<close>

definition mean2 :: "'f arith \<Rightarrow> 'f list \<Rightarrow> 'f list \<Rightarrow> 'f list" where
  "mean2 ops v w = map (\<lambda>(x, y). np_div ops (np_add ops x y) (np_count ops 2)) (zip v w)"

definition mean_rows :: "'f arith \<Rightarrow> 'f list \<Rightarrow> 'f list \<Rightarrow> error + 'f list" where
  "mean_rows ops v w =
     (if length v = length w then Inr (mean2 ops v w)
      else (case np_ragged ops v w of None \<Rightarrow> Inl ShapeError | Some m \<Rightarrow> Inr m))"

definition add_mean :: "'f arith \<Rightarrow> string \<Rightarrow> string \<Rightarrow> string \<Rightarrow> 'f table \<Rightarrow> error + 'f table" where
  "add_mean ops new k1 k2 t =
     (case getitem t k1 of
        Inl e \<Rightarrow> Inl e
      | Inr a1 \<Rightarrow>
          (case getitem t k2 of
             Inl e \<Rightarrow> Inl e
           | Inr a2 \<Rightarrow>
               (case mean_rows ops (heap t ! a1) (heap t ! a2) of
                  Inl e \<Rightarrow> Inl e
                | Inr m \<Rightarrow> Inr (store t new m))))"

text \<open>Sequencing of steps that may raise.\<close>

definition and_then :: "error + 'a \<Rightarrow> ('a \<Rightarrow> error + 'b) \<Rightarrow> error + 'b" where
  "and_then r f = (case r of Inl e \<Rightarrow> Inl e | Inr x \<Rightarrow> f x)"

definition expand :: "'f arith \<Rightarrow> bool \<Rightarrow> nat \<Rightarrow> 'f table \<Rightarrow> error + 'f table" where
  "expand ops average feature_count t =
     and_then (add_synonym ''U'' ''C'' t) (\<lambda>t.
     and_then (add_synonym ''O'' ''K'' t) (\<lambda>t.
     and_then (add_any ops average feature_count t) (\<lambda>t.
     and_then (add_mean ops ''B'' ''D'' ''N'' t) (\<lambda>t.
     and_then (add_mean ops ''J'' ''I'' ''L'' t) (\<lambda>t.
     add_mean ops ''Z'' ''E'' ''Q'' t)))))"

subsection \<open>Renormalisation and the missing residue (lines 157 to 165)\<close>

text \<open>\<^verbatim>\<open>v / v.sum()\<close>: a new array, every element divided by the sum.\<close>

definition normalized :: "'f arith \<Rightarrow> 'f list \<Rightarrow> 'f list" where
  "normalized ops v = map (\<lambda>x. np_div ops x (np_sum ops v)) v"

text \<open>
  One turn of \<^verbatim>\<open>for aa in aa_to_aadist.keys()\<close>: the key is rebound to a new array, the
  old array is left as it is.
\<close>

definition normalize_entry :: "'f arith \<Rightarrow> 'f table \<Rightarrow> string \<Rightarrow> error + 'f table" where
  "normalize_entry ops t aa =
     (case getitem t aa of
        Inl e \<Rightarrow> Inl e
      | Inr a \<Rightarrow> Inr (store t aa (normalized ops (heap t ! a))))"

fun normalize_all :: "'f arith \<Rightarrow> 'f table \<Rightarrow> string list \<Rightarrow> error + 'f table" where
  "normalize_all ops t [] = Inr t"
| "normalize_all ops t (aa # aas) =
     (case normalize_entry ops t aa of Inl e \<Rightarrow> Inl e | Inr t' \<Rightarrow> normalize_all ops t' aas)"

definition MISSINGAA :: string where
  "MISSINGAA = ''.''"

definition add_missing :: "'f arith \<Rightarrow> nat \<Rightarrow> 'f table \<Rightarrow> 'f table" where
  "add_missing ops feature_count t = store t MISSINGAA (replicate feature_count (np_zero ops))"

subsection \<open>The function\<close>

definition res_to_feature_helper :: "'f arith \<Rightarrow> string \<Rightarrow> bool \<Rightarrow> bool \<Rightarrow> error + 'f table" where
  "res_to_feature_helper ops feature_string do_normalize average =
     and_then (parse ops feature_string) (\<lambda>(t, feature_count).
     and_then (expand ops average feature_count t) (\<lambda>t.
     and_then (if do_normalize then normalize_all ops t (keys t) else Inr t) (\<lambda>t.
     Inr (add_missing ops feature_count t))))"

subsection \<open>An arithmetic to run the model on\<close>

text \<open>
  To evaluate the model on concrete tables, the arithmetic is instantiated with exact
  rational arithmetic extended by the two infinities and NaN. It rounds nothing, so it
  agrees with \<^verbatim>\<open>float32\<close> on the inputs used below, whose values and results are small
  dyadic numbers; division by zero follows IEEE 754 (the sign of a zero is not tracked):
  \<^verbatim>\<open>0/0\<close> is NaN and \<^verbatim>\<open>x/0\<close> an infinity. Its \<^verbatim>\<open>float\<close> reads plain decimal literals: an
  optional sign, digits, and an optional point with digits (one of the two digit parts
  may be empty). Python's \<^verbatim>\<open>float\<close> also reads exponents, underscores between digits and
  the words for infinity and NaN; the tables evaluated below contain none of these. Rows
  of different lengths have no mean, as in numpy from 1.24 on.
\<close>

datatype xfloat = Fin rat | PInf | NInf | NaN

fun xadd :: "xfloat \<Rightarrow> xfloat \<Rightarrow> xfloat" where
  "xadd (Fin a) (Fin b) = Fin (a + b)"
| "xadd NaN _ = NaN"
| "xadd _ NaN = NaN"
| "xadd PInf NInf = NaN"
| "xadd NInf PInf = NaN"
| "xadd PInf _ = PInf"
| "xadd _ PInf = PInf"
| "xadd NInf _ = NInf"
| "xadd _ NInf = NInf"

fun xdiv :: "xfloat \<Rightarrow> xfloat \<Rightarrow> xfloat" where
  "xdiv (Fin a) (Fin b) =
     (if b \<noteq> 0 then Fin (a / b) else if a = 0 then NaN else if 0 < a then PInf else NInf)"
| "xdiv (Fin a) PInf = Fin 0"
| "xdiv (Fin a) NInf = Fin 0"
| "xdiv PInf (Fin b) = (if 0 \<le> b then PInf else NInf)"
| "xdiv NInf (Fin b) = (if 0 \<le> b then NInf else PInf)"
| "xdiv _ _ = NaN"

definition xsum :: "xfloat list \<Rightarrow> xfloat" where
  "xsum v = foldl xadd (Fin 0) v"

definition digit :: "char \<Rightarrow> nat option" where
  "digit c =
     (let n = (of_char c :: nat) in if 48 \<le> n \<and> n \<le> 57 then Some (n - 48) else None)"

text \<open>The digits of \<open>s\<close> read as a number in base ten, after the digits read so far.\<close>

fun digits :: "nat \<Rightarrow> string \<Rightarrow> nat option" where
  "digits acc [] = Some acc"
| "digits acc (c # cs) =
     (case digit c of None \<Rightarrow> None | Some d \<Rightarrow> digits (10 * acc + d) cs)"

definition unsigned :: "string \<Rightarrow> rat option" where
  "unsigned s =
     (let ip = takeWhile (\<lambda>c. c \<noteq> CHR ''.'') s;
          fp = drop 1 (dropWhile (\<lambda>c. c \<noteq> CHR ''.'') s)
      in if ip = [] \<and> fp = [] then None
         else (case (digits 0 ip, digits 0 fp) of
                 (Some i, Some f) \<Rightarrow> Some (of_nat i + of_nat f / 10 ^ length fp)
               | _ \<Rightarrow> None))"

definition decimal :: "string \<Rightarrow> xfloat option" where
  "decimal s =
     (case s of
        [] \<Rightarrow> None
      | c # cs \<Rightarrow>
          if c = CHR ''-'' then map_option (\<lambda>r. Fin (- r)) (unsigned cs)
          else if c = CHR ''+'' then map_option Fin (unsigned cs)
          else map_option Fin (unsigned s))"

definition exact_arith :: "xfloat arith" where
  "exact_arith =
     \<lparr>np_float = decimal, np_add = xadd, np_div = xdiv, np_sum = xsum, np_zero = Fin 0,
      np_count = (\<lambda>n. Fin (of_nat n)), np_recip = (\<lambda>n. Fin (1 / of_nat n)),
      np_ragged = (\<lambda>v w. None)\<rparr>"

subsection \<open>Predicates used in the statements\<close>

text \<open>
  A table is valid when its keys are distinct, as in a dictionary, and every reference
  points into the heap.
\<close>

definition valid :: "'f table \<Rightarrow> bool" where
  "valid t \<longleftrightarrow> distinct (map fst (dict t)) \<and> (\<forall>a \<in> snd ` set (dict t). a < length (heap t))"

text \<open>The lines the loop skips: \<^verbatim>\<open>line[0] == '#'\<close>.\<close>

definition comment :: "string \<Rightarrow> bool" where
  "comment line = (case line of [] \<Rightarrow> False | c # _ \<Rightarrow> c = CHR ''#'')"

text \<open>The value of \<^verbatim>\<open>feature_count\<close> when the loop over the lines has ended.\<close>

definition feature_count :: "'f arith \<Rightarrow> string \<Rightarrow> nat" where
  "feature_count ops feature_string =
     (case parse ops feature_string of Inl _ \<Rightarrow> 0 | Inr (t, n) \<Rightarrow> n)"

text \<open>
  A number of the exact arithmetic that is within \<^verbatim>\<open>1e-5\<close> of 1 (an infinity or a NaN is
  not).
\<close>

definition near_one :: "xfloat \<Rightarrow> bool" where
  "near_one x = (case x of Fin r \<Rightarrow> \<bar>r - 1\<bar> \<le> 1 / 100000 | _ \<Rightarrow> False)"

text \<open>
  The data lines of a text, those that the loop does not skip, and the residues they name
  (the first field of each).
\<close>

definition data_lines :: "string \<Rightarrow> string list" where
  "data_lines s = filter (\<lambda>l. \<not> comment l) (readlines s)"

definition residues :: "string \<Rightarrow> string list" where
  "residues s = concat (map (\<lambda>l. take 1 (split l)) (data_lines s))"

text \<open>The residues that the expansion looks up, in the order in which it does.\<close>

definition required :: "string list" where
  "required = [''C'', ''K'', ''D'', ''N'', ''I'', ''L'', ''E'', ''Q'']"

text \<open>The twenty standard residues, in the order of the tables of the module.\<close>

definition standard :: "string list" where
  "standard = [''A'', ''R'', ''N'', ''D'', ''C'', ''Q'', ''E'', ''G'', ''H'', ''I'',
               ''L'', ''K'', ''M'', ''F'', ''P'', ''S'', ''T'', ''W'', ''Y'', ''V'']"

subsection \<open>Tables to evaluate\<close>

text \<open>
  A raw table with the eight residues the expansion reads and two features; every value
  that the function computes from it is a small dyadic number.
\<close>

definition table8 :: string where
  "table8 = ''# C K D N I L E Q\<newline>C 1 3\<newline>K 2 2\<newline>D 1 1\<newline>N 3 3\<newline>I 6 0\<newline>L 0 2\<newline>E 1 0\<newline>Q 0 1\<newline>''"

text \<open>A raw table with the twenty standard residues and one feature.\<close>

definition table20 :: string where
  "table20 = ''# one feature\<newline>A 1\<newline>R 2\<newline>N 1\<newline>D 1\<newline>C 4\<newline>Q 1\<newline>E 1\<newline>G 2\<newline>H 2\<newline>I 1\<newline>L 1\<newline>K 8\<newline>M 1\<newline>F 1\<newline>P 2\<newline>S 1\<newline>T 4\<newline>W 1\<newline>Y 1\<newline>V 2\<newline>''"

text \<open>A raw table whose first row has two features and whose other rows have one.\<close>

definition ragged8 :: string where
  "ragged8 = ''C 1 3\<newline>K 2\<newline>D 1\<newline>N 3\<newline>I 6\<newline>L 2\<newline>E 1\<newline>Q 1\<newline>''"

section \<open>Basic facts\<close>

subsection \<open>Dictionary and heap\<close>

lemma valid_empty: "valid empty_table"
  by (simp add: valid_def empty_table_def)

lemma update_values: "(k', a') \<in> set (AList.update k a al) \<Longrightarrow> a' = a \<or> (k', a') \<in> set al"
  by (induction al) (auto split: if_splits)

lemma address_lt: "valid t \<Longrightarrow> address t k = Some a \<Longrightarrow> a < length (heap t)"
  unfolding valid_def address_def by (force dest: map_of_SomeD)

lemma valid_store: "valid t \<Longrightarrow> valid (store t k v)"
  unfolding valid_def store_def
  by (auto simp: distinct_update less_Suc_eq dest!: update_values)

lemma valid_setitem: "valid t \<Longrightarrow> a < length (heap t) \<Longrightarrow> valid (setitem t k a)"
  unfolding valid_def setitem_def
  by (auto simp: distinct_update dest!: update_values)

lemma address_store: "address (store t k v) k' = (if k' = k then Some (length (heap t)) else address t k')"
  by (simp add: address_def store_def update_conv')

lemma address_setitem: "address (setitem t k a) k' = (if k' = k then Some a else address t k')"
  by (simp add: address_def setitem_def update_conv')

lemma array_store: "valid t \<Longrightarrow> array (store t k v) k' = (if k' = k then Some v else array t k')"
  by (auto simp: array_def address_store nth_append dest: address_lt split: option.splits)
    (simp_all add: store_def nth_append address_lt)

lemma array_setitem: "array (setitem t k a) k' = (if k' = k then Some (heap t ! a) else array t k')"
  by (auto simp: array_def address_setitem split: option.splits) (simp_all add: setitem_def)

lemma keys_store: "keys (store t k v) = (if k \<in> set (keys t) then keys t else keys t @ [k])"
  by (simp add: keys_def store_def update_keys)

lemma keys_setitem: "keys (setitem t k a) = (if k \<in> set (keys t) then keys t else keys t @ [k])"
  by (simp add: keys_def setitem_def update_keys)

lemma heap_store: "heap (store t k v) = heap t @ [v]"
  by (simp add: store_def)

lemma heap_setitem: "heap (setitem t k a) = heap t"
  by (simp add: setitem_def)

lemma keys_address: "k \<in> set (keys t) \<longleftrightarrow> address t k \<noteq> None"
  by (simp add: keys_def address_def map_of_eq_None_iff)

lemma keys_array: "k \<in> set (keys t) \<longleftrightarrow> array t k \<noteq> None"
  by (simp add: keys_address array_def split: option.splits)

lemma parse_line_Inr:
  "parse_line ops st l = Inr st' \<Longrightarrow>
     (comment l \<and> st' = st) \<or>
     (\<exists>aa rest v. \<not> comment l \<and> split l = aa # rest \<and> floats ops rest = Inr v \<and>
        st' = (store (fst st) aa v, length v))"
  by (auto simp: parse_line_def comment_def split: list.splits if_splits sum.splits)

lemma parse_line_comment: "comment l \<Longrightarrow> parse_line ops st l = Inr st"
  by (auto simp: parse_line_def comment_def split: list.splits)

lemma parse_line_data:
  "\<not> comment l \<Longrightarrow> split l = aa # rest \<Longrightarrow> floats ops rest = Inr v \<Longrightarrow>
   parse_line ops st l = Inr (store (fst st) aa v, length v)"
  by (auto simp: parse_line_def comment_def split_def split: list.splits)

lemma parse_lines_append:
  "parse_lines ops st (xs @ ys) =
     (case parse_lines ops st xs of Inl e \<Rightarrow> Inl e | Inr st' \<Rightarrow> parse_lines ops st' ys)"
  by (induction xs arbitrary: st) (auto split: sum.splits)

lemma parse_line_valid: "parse_line ops st l = Inr st' \<Longrightarrow> valid (fst st) \<Longrightarrow> valid (fst st')"
  by (auto dest!: parse_line_Inr simp: valid_store)

lemma parse_lines_valid: "parse_lines ops st ls = Inr st' \<Longrightarrow> valid (fst st) \<Longrightarrow> valid (fst st')"
  by (induction ls arbitrary: st) (auto split: sum.splits dest: parse_line_valid)

lemma parse_valid: "parse ops s = Inr (t, fc) \<Longrightarrow> valid t"
  unfolding parse_def by (drule parse_lines_valid) (simp_all add: valid_empty)

subsection \<open>The expansion step\<close>

lemma array_store_upd: "valid t \<Longrightarrow> array (store t k v) = (array t)(k \<mapsto> v)"
  by (rule ext) (simp add: array_store)

lemma address_store_upd: "address (store t k v) = (address t)(k \<mapsto> length (heap t))"
  by (rule ext) (simp add: address_store)

lemma set_keys_store: "set (keys (store t k v)) = insert k (set (keys t))"
  by (auto simp: keys_store)

lemma set_keys_setitem: "set (keys (setitem t k a)) = insert k (set (keys t))"
  by (auto simp: keys_setitem)

lemma address_array: "address t k = Some a \<Longrightarrow> array t k = Some (heap t ! a)"
  by (simp add: array_def)

lemma add_synonym_Inr:
  assumes "add_synonym new old t = Inr t'" "valid t"
  shows "\<exists>a v. address t old = Some a \<and> array t old = Some v \<and> valid t' \<and>
           array t' = (array t)(new \<mapsto> v) \<and> address t' = (address t)(new \<mapsto> a) \<and>
           heap t' = heap t \<and> set (keys t') = insert new (set (keys t))"
proof -
  from assms(1) obtain a where a: "address t old = Some a" and t': "t' = setitem t new a"
    by (auto simp: add_synonym_def getitem_def split: option.splits sum.splits)
  have lt: "a < length (heap t)" using a assms(2) by (rule address_lt[rotated])
  have "array t' = (array t)(new \<mapsto> heap t ! a)"
    by (rule ext) (simp add: t' array_setitem)
  moreover have "address t' = (address t)(new \<mapsto> a)"
    by (rule ext) (simp add: t' address_setitem)
  ultimately show ?thesis
    using a lt assms(2) by (auto simp: t' valid_setitem heap_setitem set_keys_setitem address_array)
qed

lemma add_any_Inr:
  assumes "add_any ops average fc t = Inr t'" "valid t"
  shows "\<exists>x. any_residue ops average fc = Inr x \<and> valid t' \<and>
           array t' = (array t)(''X'' \<mapsto> x) \<and> address t' = (address t)(''X'' \<mapsto> length (heap t)) \<and>
           heap t' = heap t @ [x] \<and> set (keys t') = insert ''X'' (set (keys t))"
  using assms
  by (auto simp: add_any_def valid_store array_store_upd address_store_upd heap_store
      set_keys_store split: sum.splits)

lemma add_mean_Inr:
  assumes "add_mean ops new k1 k2 t = Inr t'" "valid t"
  shows "\<exists>v w m. array t k1 = Some v \<and> array t k2 = Some w \<and> mean_rows ops v w = Inr m \<and>
           valid t' \<and> array t' = (array t)(new \<mapsto> m) \<and>
           address t' = (address t)(new \<mapsto> length (heap t)) \<and>
           heap t' = heap t @ [m] \<and> set (keys t') = insert new (set (keys t))"
  using assms
  by (auto simp: add_mean_def getitem_def valid_store array_store_upd address_store_upd heap_store
      set_keys_store address_array split: sum.splits option.splits)

lemma and_then_Inr: "and_then r f = Inr y \<longleftrightarrow> (\<exists>x. r = Inr x \<and> f x = Inr y)"
  by (auto simp: and_then_def split: sum.splits)

lemma expand_Inr:
  assumes "expand ops average fc t = Inr t'" "valid t"
  shows "\<exists>c k x d n i l e q bm jm zm.
           array t ''C'' = Some c \<and> array t ''K'' = Some k \<and> any_residue ops average fc = Inr x \<and>
           array t ''D'' = Some d \<and> array t ''N'' = Some n \<and> mean_rows ops d n = Inr bm \<and>
           array t ''I'' = Some i \<and> array t ''L'' = Some l \<and> mean_rows ops i l = Inr jm \<and>
           array t ''E'' = Some e \<and> array t ''Q'' = Some q \<and> mean_rows ops e q = Inr zm \<and>
           valid t' \<and>
           array t' = (array t)(''U'' \<mapsto> c, ''O'' \<mapsto> k, ''X'' \<mapsto> x, ''B'' \<mapsto> bm,
                                ''J'' \<mapsto> jm, ''Z'' \<mapsto> zm) \<and>
           address t' = (address t)(''U'' := address t ''C'', ''O'' := address t ''K'',
                                ''X'' \<mapsto> length (heap t), ''B'' \<mapsto> length (heap t) + 1,
                                ''J'' \<mapsto> length (heap t) + 2, ''Z'' \<mapsto> length (heap t) + 3) \<and>
           set (keys t') = set (keys t) \<union> {''U'', ''O'', ''X'', ''B'', ''J'', ''Z''}"
proof -
  from assms(1) obtain t1 t2 t3 t4 t5 where
    s1: "add_synonym ''U'' ''C'' t = Inr t1" and
    s2: "add_synonym ''O'' ''K'' t1 = Inr t2" and
    s3: "add_any ops average fc t2 = Inr t3" and
    s4: "add_mean ops ''B'' ''D'' ''N'' t3 = Inr t4" and
    s5: "add_mean ops ''J'' ''I'' ''L'' t4 = Inr t5" and
    s6: "add_mean ops ''Z'' ''E'' ''Q'' t5 = Inr t'"
    unfolding expand_def and_then_Inr by blast
  from add_synonym_Inr[OF s1 assms(2)] obtain ac c where
    f1: "address t ''C'' = Some ac" "array t ''C'' = Some c" "valid t1"
      "array t1 = (array t)(''U'' \<mapsto> c)" "address t1 = (address t)(''U'' \<mapsto> ac)"
      "heap t1 = heap t" "set (keys t1) = insert ''U'' (set (keys t))"
    by blast
  from add_synonym_Inr[OF s2 f1(3)] obtain ak k where
    f2: "address t1 ''K'' = Some ak" "array t1 ''K'' = Some k" "valid t2"
      "array t2 = (array t1)(''O'' \<mapsto> k)" "address t2 = (address t1)(''O'' \<mapsto> ak)"
      "heap t2 = heap t1" "set (keys t2) = insert ''O'' (set (keys t1))"
    by blast
  from add_any_Inr[OF s3 f2(3)] obtain x where
    f3: "any_residue ops average fc = Inr x" "valid t3"
      "array t3 = (array t2)(''X'' \<mapsto> x)" "address t3 = (address t2)(''X'' \<mapsto> length (heap t2))"
      "heap t3 = heap t2 @ [x]" "set (keys t3) = insert ''X'' (set (keys t2))"
    by blast
  from add_mean_Inr[OF s4 f3(2)] obtain d n bm where
    f4: "array t3 ''D'' = Some d" "array t3 ''N'' = Some n" "mean_rows ops d n = Inr bm" "valid t4"
      "array t4 = (array t3)(''B'' \<mapsto> bm)"
      "address t4 = (address t3)(''B'' \<mapsto> length (heap t3))"
      "heap t4 = heap t3 @ [bm]" "set (keys t4) = insert ''B'' (set (keys t3))"
    by blast
  from add_mean_Inr[OF s5 f4(4)] obtain i l jm where
    f5: "array t4 ''I'' = Some i" "array t4 ''L'' = Some l" "mean_rows ops i l = Inr jm" "valid t5"
      "array t5 = (array t4)(''J'' \<mapsto> jm)"
      "address t5 = (address t4)(''J'' \<mapsto> length (heap t4))"
      "heap t5 = heap t4 @ [jm]" "set (keys t5) = insert ''J'' (set (keys t4))"
    by blast
  from add_mean_Inr[OF s6 f5(4)] obtain e q zm where
    f6: "array t5 ''E'' = Some e" "array t5 ''Q'' = Some q" "mean_rows ops e q = Inr zm" "valid t'"
      "array t' = (array t5)(''Z'' \<mapsto> zm)"
      "address t' = (address t5)(''Z'' \<mapsto> length (heap t5))"
      "heap t' = heap t5 @ [zm]" "set (keys t') = insert ''Z'' (set (keys t5))"
    by blast
  have "array t ''K'' = Some k" using f2(2) by (simp add: f1)
  moreover have "array t ''D'' = Some d" "array t ''N'' = Some n"
    using f4(1,2) by (simp_all add: f1 f2 f3)
  moreover have "array t ''I'' = Some i" "array t ''L'' = Some l"
    using f5(1,2) by (simp_all add: f1 f2 f3 f4)
  moreover have "array t ''E'' = Some e" "array t ''Q'' = Some q"
    using f6(1,2) by (simp_all add: f1 f2 f3 f4 f5)
  moreover have "address t ''K'' = Some ak" using f2(1) by (simp add: f1)
  moreover have "array t' = (array t)(''U'' \<mapsto> c, ''O'' \<mapsto> k, ''X'' \<mapsto> x, ''B'' \<mapsto> bm,
                                ''J'' \<mapsto> jm, ''Z'' \<mapsto> zm)"
    by (simp add: f1 f2 f3 f4 f5 f6)
  moreover have "address t' = (address t)(''U'' := address t ''C'', ''O'' := address t ''K'',
                                ''X'' \<mapsto> length (heap t), ''B'' \<mapsto> length (heap t) + 1,
                                ''J'' \<mapsto> length (heap t) + 2, ''Z'' \<mapsto> length (heap t) + 3)"
    using \<open>address t ''K'' = Some ak\<close> by (simp add: f1 f2 f3 f4 f5 f6 eval_nat_numeral)
  moreover have "set (keys t') = set (keys t) \<union> {''U'', ''O'', ''X'', ''B'', ''J'', ''Z''}"
    by (auto simp add: f1(7) f2(7) f3(6) f4(8) f5(8) f6(8))
  ultimately show ?thesis
    using f1(2) f3(1) f4(3) f5(3) f6(3,4) by blast
qed

subsection \<open>Renormalisation and the whole function\<close>

lemma normalize_entry_Inr:
  assumes "valid t" "array t aa = Some v"
  shows "normalize_entry ops t aa = Inr (store t aa (normalized ops v))"
  using assms by (auto simp: normalize_entry_def getitem_def array_def split: option.splits)

lemma normalize_all_Inr:
  assumes "valid t" "set ks \<subseteq> set (keys t)" "distinct ks"
  shows "\<exists>t'. normalize_all ops t ks = Inr t' \<and> valid t' \<and> keys t' = keys t \<and>
           (\<forall>k. array t' k = (if k \<in> set ks then map_option (normalized ops) (array t k)
                               else array t k)) \<and>
           (\<forall>k. k \<notin> set ks \<longrightarrow> address t' k = address t k) \<and>
           (\<forall>i<length ks. address t' (ks ! i) = Some (length (heap t) + i)) \<and>
           length (heap t') = length (heap t) + length ks"
  using assms
proof (induction ks arbitrary: t)
  case Nil
  then show ?case by simp
next
  case (Cons a ks)
  from Cons.prems obtain v where v: "array t a = Some v"
    by (auto simp: keys_array)
  define t1 where "t1 = store t a (normalized ops v)"
  have e: "normalize_entry ops t a = Inr t1"
    unfolding t1_def using Cons.prems(1) v by (rule normalize_entry_Inr)
  have v1: "valid t1" unfolding t1_def using Cons.prems(1) by (rule valid_store)
  have k1: "keys t1 = keys t" using Cons.prems(2) by (simp add: t1_def keys_store)
  have a1: "array t1 = (array t)(a \<mapsto> normalized ops v)"
    unfolding t1_def using Cons.prems(1) by (rule array_store_upd)
  have d1: "address t1 = (address t)(a \<mapsto> length (heap t))"
    unfolding t1_def by (rule address_store_upd)
  have h1: "length (heap t1) = Suc (length (heap t))" by (simp add: t1_def heap_store)
  from Cons.prems have "set ks \<subseteq> set (keys t1)" "distinct ks" "a \<notin> set ks"
    by (simp_all add: k1)
  from Cons.IH[OF v1 this(1,2)] obtain t' where
    t': "normalize_all ops t1 ks = Inr t'" "valid t'" "keys t' = keys t1"
      "\<forall>k. array t' k = (if k \<in> set ks then map_option (normalized ops) (array t1 k) else array t1 k)"
      "\<forall>k. k \<notin> set ks \<longrightarrow> address t' k = address t1 k"
      "\<forall>i<length ks. address t' (ks ! i) = Some (length (heap t1) + i)"
      "length (heap t') = length (heap t1) + length ks"
    by blast
  have "normalize_all ops t (a # ks) = Inr t'" by (simp add: e t'(1))
  moreover have "\<forall>k. array t' k = (if k \<in> set (a # ks) then map_option (normalized ops) (array t k)
                               else array t k)"
    using t'(4) \<open>a \<notin> set ks\<close> v by (auto simp: a1)
  moreover have "\<forall>k. k \<notin> set (a # ks) \<longrightarrow> address t' k = address t k"
    using t'(5) by (simp add: d1)
  moreover have "\<forall>i<length (a # ks). address t' ((a # ks) ! i) = Some (length (heap t) + i)"
  proof (intro allI impI)
    fix i assume "i < length (a # ks)"
    then show "address t' ((a # ks) ! i) = Some (length (heap t) + i)"
      using t'(5,6) \<open>a \<notin> set ks\<close> by (cases i) (simp_all add: d1 h1)
  qed
  ultimately show ?case using t'(2,3,7) by (simp add: k1 h1)
qed

lemma valid_distinct_keys: "valid t \<Longrightarrow> distinct (keys t)"
  by (simp add: valid_def keys_def)

lemma normalize_keys_Inr:
  assumes "valid t"
  shows "\<exists>t'. normalize_all ops t (keys t) = Inr t' \<and> valid t' \<and> keys t' = keys t \<and>
           (\<forall>k. array t' k = map_option (normalized ops) (array t k)) \<and>
           (\<forall>i<length (keys t). address t' (keys t ! i) = Some (length (heap t) + i))"
proof -
  from normalize_all_Inr[OF assms subset_refl valid_distinct_keys[OF assms], of ops]
  obtain t' where
    t': "normalize_all ops t (keys t) = Inr t'" "valid t'" "keys t' = keys t"
      "\<forall>k. array t' k = (if k \<in> set (keys t) then map_option (normalized ops) (array t k)
                               else array t k)"
      "\<forall>i<length (keys t). address t' (keys t ! i) = Some (length (heap t) + i)"
    by blast
  have "array t' k = map_option (normalized ops) (array t k)" for k
    using t'(4) by (cases "k \<in> set (keys t)") (simp_all add: keys_array)
  then show ?thesis using t' by blast
qed

text \<open>Two keys of a normalised table are bound to different arrays.\<close>

lemma normalize_keys_fresh:
  assumes "valid t" "normalize_all ops t (keys t) = Inr t'"
    "k1 \<in> set (keys t)" "k2 \<in> set (keys t)" "k1 \<noteq> k2"
  shows "address t' k1 \<noteq> address t' k2"
proof -
  from normalize_keys_Inr[OF assms(1), of ops] assms(2)
  have a: "\<forall>i<length (keys t). address t' (keys t ! i) = Some (length (heap t) + i)"
    by auto
  from assms(3,4) obtain i j where
    ij: "i < length (keys t)" "keys t ! i = k1" "j < length (keys t)" "keys t ! j = k2"
    by (auto simp: in_set_conv_nth)
  with assms(5) have "i \<noteq> j" by auto
  with a ij show ?thesis by auto
qed

lemma helper_Inr:
  assumes "res_to_feature_helper ops s nrm average = Inr t"
  shows "\<exists>b fc u. parse ops s = Inr (b, fc) \<and> valid b \<and> expand ops average fc b = Inr u \<and> valid u \<and>
           res_to_feature_helper ops s False average = Inr (add_missing ops fc u) \<and>
           valid t \<and>
           array t = (\<lambda>k. if nrm then map_option (normalized ops) (array u k) else array u k)
                       (MISSINGAA \<mapsto> replicate fc (np_zero ops)) \<and>
           set (keys t) = insert MISSINGAA (set (keys u)) \<and>
           (\<not> nrm \<longrightarrow> t = add_missing ops fc u) \<and>
           (nrm \<longrightarrow> (\<exists>n. normalize_all ops u (keys u) = Inr n \<and> t = add_missing ops fc n))"
proof -
  obtain b fc where p: "parse ops s = Inr (b, fc)"
    using assms by (cases "parse ops s") (auto simp: res_to_feature_helper_def and_then_def)
  obtain u where x: "expand ops average fc b = Inr u"
    using assms p
    by (cases "expand ops average fc b") (auto simp: res_to_feature_helper_def and_then_def)
  obtain n where n: "(if nrm then normalize_all ops u (keys u) else Inr u) = Inr n"
    and t: "t = add_missing ops fc n"
    using assms p x
    by (cases "if nrm then normalize_all ops u (keys u) else Inr u")
      (auto simp: res_to_feature_helper_def and_then_def)
  have vb: "valid b" using p by (rule parse_valid)
  from expand_Inr[OF x vb] have vu: "valid u" by blast
  have f: "res_to_feature_helper ops s False average = Inr (add_missing ops fc u)"
    by (simp add: res_to_feature_helper_def and_then_def p x)
  from normalize_keys_Inr[OF vu, of ops] obtain n' where
    n': "normalize_all ops u (keys u) = Inr n'" "valid n'" "keys n' = keys u"
      "\<forall>k. array n' k = map_option (normalized ops) (array u k)"
    by blast
  have vn: "valid n" using n n' vu by (auto split: if_splits)
  have kn: "keys n = keys u" using n n' by (auto split: if_splits)
  have an: "array n = (\<lambda>k. if nrm then map_option (normalized ops) (array u k) else array u k)"
    using n n' by (auto split: if_splits)
  have "array t = (array n)(MISSINGAA \<mapsto> replicate fc (np_zero ops))"
    unfolding t add_missing_def using vn by (rule array_store_upd)
  moreover have "set (keys t) = insert MISSINGAA (set (keys u))"
    by (simp add: t add_missing_def set_keys_store kn)
  moreover have "valid t" by (simp add: t add_missing_def valid_store vn)
  moreover have "\<not> nrm \<longrightarrow> t = add_missing ops fc u" using n t by (cases nrm) simp_all
  moreover have "nrm \<longrightarrow> (\<exists>n. normalize_all ops u (keys u) = Inr n \<and> t = add_missing ops fc n)"
    using n t by (cases nrm) simp_all
  ultimately show ?thesis using p vb x vu f an by simp
qed

subsection \<open>What a returned table holds\<close>

lemma feature_count_parse: "parse ops s = Inr (b, fc) \<Longrightarrow> feature_count ops s = fc"
  by (simp add: feature_count_def)

lemma floats_length: "floats ops xs = Inr v \<Longrightarrow> length v = length xs"
  by (induction xs arbitrary: v) (auto split: option.splits sum.splits)

lemma helper_arrays:
  assumes "res_to_feature_helper ops s nrm average = Inr t"
  shows "\<exists>b u c k x d n i l e q bm jm zm.
           parse ops s = Inr (b, feature_count ops s) \<and> valid b \<and>
           expand ops average (feature_count ops s) b = Inr u \<and>
           any_residue ops average (feature_count ops s) = Inr x \<and>
           array b ''C'' = Some c \<and> array b ''K'' = Some k \<and>
           array b ''D'' = Some d \<and> array b ''N'' = Some n \<and> mean_rows ops d n = Inr bm \<and>
           array b ''I'' = Some i \<and> array b ''L'' = Some l \<and> mean_rows ops i l = Inr jm \<and>
           array b ''E'' = Some e \<and> array b ''Q'' = Some q \<and> mean_rows ops e q = Inr zm \<and>
           array u = (array b)(''U'' \<mapsto> c, ''O'' \<mapsto> k, ''X'' \<mapsto> x, ''B'' \<mapsto> bm,
                                ''J'' \<mapsto> jm, ''Z'' \<mapsto> zm) \<and>
           array t = (\<lambda>k. if nrm then map_option (normalized ops) (array u k) else array u k)
                       (MISSINGAA \<mapsto> replicate (feature_count ops s) (np_zero ops)) \<and>
           set (keys t) = set (keys b) \<union> {''U'', ''O'', ''X'', ''B'', ''J'', ''Z'', MISSINGAA}"
proof -
  from helper_Inr[OF assms] obtain b fc u where
    h: "parse ops s = Inr (b, fc)" "valid b" "expand ops average fc b = Inr u"
      "array t = (\<lambda>k. if nrm then map_option (normalized ops) (array u k) else array u k)
                       (MISSINGAA \<mapsto> replicate fc (np_zero ops))"
      "set (keys t) = insert MISSINGAA (set (keys u))"
    by blast
  have fc: "feature_count ops s = fc" using h(1) by (rule feature_count_parse)
  from expand_Inr[OF h(3) h(2)] obtain c k x d n i l e q bm jm zm where
    x: "array b ''C'' = Some c" "array b ''K'' = Some k" "any_residue ops average fc = Inr x"
       "array b ''D'' = Some d" "array b ''N'' = Some n" "mean_rows ops d n = Inr bm"
       "array b ''I'' = Some i" "array b ''L'' = Some l" "mean_rows ops i l = Inr jm"
       "array b ''E'' = Some e" "array b ''Q'' = Some q" "mean_rows ops e q = Inr zm"
       "array u = (array b)(''U'' \<mapsto> c, ''O'' \<mapsto> k, ''X'' \<mapsto> x, ''B'' \<mapsto> bm,
                                ''J'' \<mapsto> jm, ''Z'' \<mapsto> zm)"
       "set (keys u) = set (keys b) \<union> {''U'', ''O'', ''X'', ''B'', ''J'', ''Z''}"
    by blast
  have "set (keys t) = set (keys b) \<union> {''U'', ''O'', ''X'', ''B'', ''J'', ''Z'', MISSINGAA}"
    unfolding h(5) x(14) by blast
  then show ?thesis unfolding fc using h(1-4) x(1-13) by blast
qed

lemma array_add_missing:
  "valid t \<Longrightarrow> k \<noteq> MISSINGAA \<Longrightarrow> array (add_missing ops fc t) k = array t k"
  by (simp add: add_missing_def array_store)

lemma address_add_missing:
  "k \<noteq> MISSINGAA \<Longrightarrow> address (add_missing ops fc t) k = address t k"
  by (simp add: add_missing_def address_store)

subsection \<open>The arithmetic for evaluation\<close>

lemma exact_arith_sel:
  "np_float exact_arith = decimal" "np_add exact_arith = xadd" "np_div exact_arith = xdiv"
  "np_sum exact_arith = xsum" "np_zero exact_arith = Fin 0"
  "np_count exact_arith n = Fin (of_nat n)" "np_recip exact_arith n = Fin (1 / of_nat n)"
  "np_ragged exact_arith v w = None"
  by (simp_all add: exact_arith_def)

section \<open>The missing residue\<close>

text \<open>
  Claim C6. In every table that is built, whatever the flags, the entry of the missing
  residue \<^verbatim>\<open>'.'\<close> is the vector of \<^verbatim>\<open>feature_count\<close> zeros; it is the array allocated last,
  after the renormalisation loop, so it is never divided by its sum.
\<close>

theorem missing_marker_zero:
  assumes "res_to_feature_helper ops s nrm average = Inr t"
  shows "array t MISSINGAA = Some (replicate (feature_count ops s) (np_zero ops)) \<and>
         address t MISSINGAA = Some (length (heap t) - 1) \<and>
         last (heap t) = replicate (feature_count ops s) (np_zero ops)"
proof -
  from helper_Inr[OF assms] obtain b fc u where
    p: "parse ops s = Inr (b, fc)" and
    a: "array t = (\<lambda>k. if nrm then map_option (normalized ops) (array u k) else array u k)
                       (MISSINGAA \<mapsto> replicate fc (np_zero ops))" and
    n: "\<not> nrm \<longrightarrow> t = add_missing ops fc u"
       "nrm \<longrightarrow> (\<exists>n. normalize_all ops u (keys u) = Inr n \<and> t = add_missing ops fc n)"
    by blast
  from n obtain n where t: "t = add_missing ops fc n" by (cases nrm) auto
  have "address t MISSINGAA = Some (length (heap t) - 1)"
    by (simp add: t add_missing_def address_store heap_store)
  moreover have "last (heap t) = replicate fc (np_zero ops)"
    by (simp add: t add_missing_def heap_store)
  ultimately show ?thesis using a by (simp add: feature_count_parse[OF p])
qed

theorem missing_marker_zero_witness:
  "\<not> isl (res_to_feature_helper exact_arith table8 True False) \<and>
   array (projr (res_to_feature_helper exact_arith table8 True False)) ''.'' = Some [Fin 0, Fin 0]"
proof -
  have r: "\<not> isl (res_to_feature_helper exact_arith table8 True False)"
    by code_simp
  then have h: "res_to_feature_helper exact_arith table8 True False =
      Inr (projr (res_to_feature_helper exact_arith table8 True False))"
    by simp
  have fc: "feature_count exact_arith table8 = 2" by code_simp
  from missing_marker_zero[OF h] r show ?thesis
    by (simp add: fc MISSINGAA_def exact_arith_sel numeral_2_eq_2)
qed

section \<open>Ambiguous residues\<close>




section \<open>The entry for any residue\<close>

text \<open>
  Claim C8, as the code has it. The expansion sets the X entry from \<^verbatim>\<open>average\<close> alone: the
  uniform vector of \<^verbatim>\<open>1.0/feature_count\<close> when the flag is set, the zero vector of
  \<^verbatim>\<open>feature_count\<close> components when it is not. The returned table holds that vector only
  when \<^verbatim>\<open>normalize\<close> is off; when it is on, the renormalisation loop has divided it by its
  own sum like every other entry, so the returned entry depends on both flags.
\<close>

theorem any_residue_entry:
  assumes "res_to_feature_helper ops s nrm average = Inr t"
  shows "\<exists>b fc u x.
           parse ops s = Inr (b, fc) \<and> expand ops average fc b = Inr u \<and>
           (average \<longrightarrow> 0 < fc) \<and>
           x = (if average then replicate fc (np_recip ops fc) else replicate fc (np_zero ops)) \<and>
           array u ''X'' = Some x \<and>
           array t ''X'' = Some (if nrm then map (\<lambda>y. np_div ops y (np_sum ops x)) x else x)"
proof -
  from helper_arrays[OF assms] obtain b u c k x d n i l e q bm jm zm where
    h: "parse ops s = Inr (b, feature_count ops s)"
       "expand ops average (feature_count ops s) b = Inr u"
       "any_residue ops average (feature_count ops s) = Inr x"
       "array u = (array b)(''U'' \<mapsto> c, ''O'' \<mapsto> k, ''X'' \<mapsto> x, ''B'' \<mapsto> bm,
                                ''J'' \<mapsto> jm, ''Z'' \<mapsto> zm)"
       "array t = (\<lambda>k. if nrm then map_option (normalized ops) (array u k) else array u k)
                       (MISSINGAA \<mapsto> replicate (feature_count ops s) (np_zero ops))"
    by blast
  let ?fc = "feature_count ops s"
  from h(3) have "average \<longrightarrow> 0 < ?fc"
    and "x = (if average then replicate ?fc (np_recip ops ?fc) else replicate ?fc (np_zero ops))"
    by (auto simp: any_residue_def split: if_splits)
  moreover have "array u ''X'' = Some x" by (simp add: h(4))
  moreover have "array t ''X'' = Some (if nrm then map (\<lambda>y. np_div ops y (np_sum ops x)) x else x)"
    by (simp add: h(4,5) MISSINGAA_def normalized_def)
  ultimately show ?thesis using h(1,2) by blast
qed

theorem any_residue_entry_witness:
  "\<not> isl (res_to_feature_helper exact_arith table8 False True) \<and>
   array (projr (res_to_feature_helper exact_arith table8 False True)) ''X'' =
     Some [Fin (1 / 2), Fin (1 / 2)]"
proof -
  let ?H = "res_to_feature_helper exact_arith table8 False True"
  have r: "\<not> isl ?H" by code_simp
  then have h: "?H = Inr (projr ?H)" by simp
  have fc: "snd (projr (parse exact_arith table8)) = 2" by code_simp
  from any_residue_entry[OF h] obtain b fc where
    p: "parse exact_arith table8 = Inr (b, fc)" and
    t: "array (projr ?H) ''X'' = Some (replicate fc (np_recip exact_arith fc))"
    by auto
  have "fc = 2" using fc by (simp add: p)
  with t r show ?thesis
    by (simp add: exact_arith_sel numeral_2_eq_2)
qed

text \<open>
  With \<^verbatim>\<open>average\<close> off and \<^verbatim>\<open>normalize\<close> on, the X entry of the table returned for
  \<^verbatim>\<open>table8\<close> is not the zero vector: the division has turned every component into
  \<^verbatim>\<open>0/0\<close>.
\<close>

theorem any_residue_entry_counterexample:
  "\<not> isl (res_to_feature_helper exact_arith table8 True False) \<and>
   array (projr (res_to_feature_helper exact_arith table8 True False)) ''X'' = Some [NaN, NaN] \<and>
   array (projr (res_to_feature_helper exact_arith table8 True False)) ''X'' \<noteq>
     Some (replicate (feature_count exact_arith table8) (np_zero exact_arith))"
  by code_simp

section \<open>Duplicate residues\<close>

lemma parse_lines_other:
  assumes "parse_lines ops st ls = Inr st'" "valid (fst st)"
    and "\<forall>l\<in>set ls. comment l \<or> take 1 (split l) \<noteq> [aa]"
  shows "array (fst st') aa = array (fst st) aa"
  using assms
proof (induction ls arbitrary: st)
  case Nil
  then show ?case by simp
next
  case (Cons l ls)
  from Cons.prems(1) obtain st1 where
    l: "parse_line ops st l = Inr st1" and ls: "parse_lines ops st1 ls = Inr st'"
    by (auto split: sum.splits)
  have v1: "valid (fst st1)" using l Cons.prems(2) by (rule parse_line_valid)
  have "array (fst st1) aa = array (fst st) aa"
    using parse_line_Inr[OF l] Cons.prems(2,3) by (auto simp: array_store)
  moreover have "array (fst st') aa = array (fst st1) aa"
    using ls v1 Cons.prems(3) by (intro Cons.IH) simp_all
  ultimately show ?case by simp
qed

text \<open>
  Claim C9. The lines are read from the top; the entry of a residue is the row of the last
  data line that names it, whatever the lines before it held for that residue.
\<close>

theorem last_write_wins:
  assumes "parse ops s = Inr (b, fc)"
    and "readlines s = pre @ l # post"
    and "\<not> comment l" "split l = aa # rest" "floats ops rest = Inr v"
    and "\<forall>l'\<in>set post. comment l' \<or> take 1 (split l') \<noteq> [aa]"
  shows "array b aa = Some v"
proof -
  from assms(1,2) obtain st0 where
    pre: "parse_lines ops (empty_table, 0) pre = Inr st0" and
    rest: "parse_lines ops st0 (l # post) = Inr (b, fc)"
    by (auto simp: parse_def parse_lines_append split: sum.splits)
  have v0: "valid (fst st0)" using pre by (rule parse_lines_valid) (simp add: valid_empty)
  let ?st1 = "(store (fst st0) aa v, length v)"
  have l: "parse_line ops st0 l = Inr ?st1"
    using assms(3-5) by (rule parse_line_data)
  with rest have post: "parse_lines ops ?st1 post = Inr (b, fc)" by simp
  have "array (fst (b, fc)) aa = array (fst ?st1) aa"
    using post _ assms(6) by (rule parse_lines_other) (simp add: valid_store v0)
  then show ?thesis by (simp add: array_store v0)
qed

theorem last_write_wins_witness:
  "\<not> isl (parse exact_arith ''A 1\<newline>B 5\<newline>A 2\<newline># A 3\<newline>'') \<and>
   array (fst (projr (parse exact_arith ''A 1\<newline>B 5\<newline>A 2\<newline># A 3\<newline>''))) ''A'' = Some [Fin 2]"
proof -
  let ?s = "''A 1\<newline>B 5\<newline>A 2\<newline># A 3\<newline>''"
  have r: "\<not> isl (parse exact_arith ?s)" by code_simp
  then have p: "parse exact_arith ?s =
      Inr (fst (projr (parse exact_arith ?s)), snd (projr (parse exact_arith ?s)))"
    by simp
  have l: "readlines ?s = [''A 1\<newline>'', ''B 5\<newline>''] @ ''A 2\<newline>'' # [''# A 3\<newline>'']"
    by code_simp
  have c: "\<not> comment ''A 2\<newline>''" by code_simp
  have s: "split ''A 2\<newline>'' = ''A'' # [''2'']" by code_simp
  have f: "floats exact_arith [''2''] = Inr [Fin 2]" by code_simp
  have o: "\<forall>l'\<in>set [''# A 3\<newline>'']. comment l' \<or> take 1 (split l') \<noteq> [''A'']"
    by (simp add: comment_def)
  from last_write_wins[OF p l c s f o] r show ?thesis by simp
qed

section \<open>Blank lines and comments\<close>

lemma pieces_blank: "\<forall>c\<in>set l. isspace c \<Longrightarrow> filter (\<lambda>w. w \<noteq> []) (pieces l) = []"
  by (induction l) simp_all

lemma split_blank: "\<forall>c\<in>set l. isspace c \<Longrightarrow> split l = []"
  by (simp add: split_def pieces_blank)

lemma isspace_hash: "\<not> isspace (CHR ''#'')"
  by (simp add: isspace_def)

lemma parse_line_blank:
  assumes "\<forall>c\<in>set l. isspace c"
  shows "parse_line ops st l = Inl IndexError"
proof (cases l)
  case Nil
  then show ?thesis by (simp add: parse_line_def)
next
  case (Cons c cs)
  with assms have "c \<noteq> CHR ''#''" using isspace_hash by auto
  then show ?thesis using split_blank[OF assms] by (simp add: parse_line_def Cons)
qed

lemma floats_Inl: "floats ops xs = Inl e \<Longrightarrow> \<exists>x. e = ValueError x"
  by (induction xs) (auto split: option.splits sum.splits)

lemma parse_line_Inl:
  "parse_line ops st l = Inl e \<Longrightarrow> e = IndexError \<or> (\<exists>x. e = ValueError x)"
  by (auto simp: parse_line_def split: list.splits if_splits sum.splits dest: floats_Inl)

lemma parse_lines_blank:
  assumes "l \<in> set ls" "\<forall>c\<in>set l. isspace c"
  shows "\<exists>e. parse_lines ops st ls = Inl e \<and> (e = IndexError \<or> (\<exists>x. e = ValueError x))"
  using assms(1)
proof (induction ls arbitrary: st)
  case Nil
  then show ?case by simp
next
  case (Cons a ls)
  show ?case
  proof (cases "parse_line ops st a")
    case (Inl e)
    then show ?thesis using parse_line_Inl[OF Inl] by simp
  next
    case (Inr st1)
    with parse_line_blank[OF assms(2), of ops st] have "a \<noteq> l" by auto
    with Cons.prems have "l \<in> set ls" by simp
    from Cons.IH[OF this, of st1] show ?thesis by (simp add: Inr)
  qed
qed

lemma parse_line_skip: "parse_line ops st l = Inr st \<longleftrightarrow> comment l"
proof
  assume "parse_line ops st l = Inr st"
  from parse_line_Inr[OF this] show "comment l"
  proof (elim disjE exE conjE)
    fix aa rest v
    assume "st = (store (fst st) aa v, length v)"
    then have "heap (fst st) = heap (store (fst st) aa v)" by (metis fst_conv)
    then show "comment l" by (simp add: heap_store)
  qed simp
qed (rule parse_line_comment)

text \<open>
  Claim C10. A line of whitespace only (an empty line is its line feed) is not skipped: on
  it \<^verbatim>\<open>linearr[0]\<close> raises IndexError, in every state of the loop. So the function raises on
  every text that has such a line, IndexError unless a line before it held a token that is
  no number. The lines skipped are those, and only those, whose first character is
  \<^verbatim>\<open>'#'\<close>.
\<close>

theorem blank_line_raises:
  assumes "l \<in> set (readlines s)" "\<forall>c\<in>set l. isspace c"
  shows "(\<forall>st. parse_line ops st l = Inl IndexError) \<and>
         (\<exists>e. res_to_feature_helper ops s nrm average = Inl e \<and>
              (e = IndexError \<or> (\<exists>x. e = ValueError x))) \<and>
         (\<forall>pre post st. readlines s = pre @ l # post \<and>
              parse_lines ops (empty_table, 0) pre = Inr st \<longrightarrow>
              res_to_feature_helper ops s nrm average = Inl IndexError) \<and>
         (\<forall>st l'. parse_line ops st l' = Inr st \<longleftrightarrow> comment l')"
proof (intro conjI allI impI)
  fix st show "parse_line ops st l = Inl IndexError"
    using assms(2) by (rule parse_line_blank)
next
  from parse_lines_blank[OF assms, of ops "(empty_table, 0)"]
  show "\<exists>e. res_to_feature_helper ops s nrm average = Inl e \<and>
              (e = IndexError \<or> (\<exists>x. e = ValueError x))"
    by (auto simp: res_to_feature_helper_def parse_def and_then_def)
next
  fix pre post st
  assume "readlines s = pre @ l # post \<and> parse_lines ops (empty_table, 0) pre = Inr st"
  then have "parse ops s = Inl IndexError"
    by (simp add: parse_def parse_lines_append parse_line_blank[OF assms(2)])
  then show "res_to_feature_helper ops s nrm average = Inl IndexError"
    by (simp add: res_to_feature_helper_def and_then_def)
next
  fix st l'
  show "parse_line ops st l' = Inr st \<longleftrightarrow> comment l'" by (rule parse_line_skip)
qed

theorem blank_line_raises_witness:
  "res_to_feature_helper exact_arith ''# c\<newline>A 1\<newline>\<newline>K 2\<newline>'' True True = Inl IndexError"
proof -
  let ?s = "''# c\<newline>A 1\<newline>\<newline>K 2\<newline>''"
  have l: "readlines ?s = [''# c\<newline>'', ''A 1\<newline>''] @ ''\<newline>'' # [''K 2\<newline>'']"
    by code_simp
  have m: "''\<newline>'' \<in> set (readlines ?s)" unfolding l by simp
  have b: "\<forall>c\<in>set ''\<newline>''. isspace c" by (simp add: isspace_def)
  have p: "\<not> isl (parse_lines exact_arith (empty_table, 0) [''# c\<newline>'', ''A 1\<newline>''])"
    by code_simp
  then obtain st where "parse_lines exact_arith (empty_table, 0) [''# c\<newline>'', ''A 1\<newline>''] = Inr st"
    by (cases "parse_lines exact_arith (empty_table, 0) [''# c\<newline>'', ''A 1\<newline>'']") simp_all
  with blank_line_raises[OF m b, of exact_arith True True] l show ?thesis by blast
qed

section \<open>Renormalisation of a zero sum\<close>

lemma normalized_replicate:
  "normalized ops (replicate n x) = replicate n (np_div ops x (np_sum ops (replicate n x)))"
  by (simp add: normalized_def)

lemma helper_normalize_Inl:
  "res_to_feature_helper ops s True average = Inl e \<longleftrightarrow>
   res_to_feature_helper ops s False average = Inl e"
proof (cases "parse ops s")
  case (Inl e')
  then show ?thesis by (simp add: res_to_feature_helper_def and_then_def)
next
  case (Inr st)
  obtain b fc where st: "st = (b, fc)" by (cases st)
  have vb: "valid b" using Inr unfolding st by (rule parse_valid)
  show ?thesis
  proof (cases "expand ops average fc b")
    case (Inl e')
    then show ?thesis by (simp add: res_to_feature_helper_def and_then_def Inr st)
  next
    case u: (Inr u)
    from expand_Inr[OF u vb] have "valid u" by blast
    from normalize_keys_Inr[OF this, of ops] obtain n where
      "normalize_all ops u (keys u) = Inr n" by blast
    then show ?thesis by (simp add: res_to_feature_helper_def and_then_def Inr st u)
  qed
qed

text \<open>
  Claim C1, as the code has it. The renormalisation raises nothing. With \<^verbatim>\<open>normalize\<close> on the
  function fails on exactly the texts on which it fails with \<^verbatim>\<open>normalize\<close> off, and with the
  same exception; an entry whose sum is zero is divided by that sum like any other, and the
  table is returned. With \<^verbatim>\<open>average\<close> off, every component of the returned X entry is
  \<^verbatim>\<open>0.0\<close> divided by the sum of the zero vector.
\<close>

theorem zero_sum_no_failure:
  "(res_to_feature_helper ops s True average = Inl e \<longleftrightarrow>
      res_to_feature_helper ops s False average = Inl e) \<and>
   (\<forall>t. res_to_feature_helper ops s True False = Inr t \<longrightarrow>
      array t ''X'' =
        Some (replicate (feature_count ops s)
               (np_div ops (np_zero ops)
                  (np_sum ops (replicate (feature_count ops s) (np_zero ops))))))"
proof (intro conjI allI impI)
  show "res_to_feature_helper ops s True average = Inl e \<longleftrightarrow>
      res_to_feature_helper ops s False average = Inl e"
    by (rule helper_normalize_Inl)
next
  fix t assume "res_to_feature_helper ops s True False = Inr t"
  from helper_arrays[OF this] obtain b u c k x d n i l e q bm jm zm where
    h: "any_residue ops False (feature_count ops s) = Inr x"
       "array u = (array b)(''U'' \<mapsto> c, ''O'' \<mapsto> k, ''X'' \<mapsto> x, ''B'' \<mapsto> bm,
                                ''J'' \<mapsto> jm, ''Z'' \<mapsto> zm)"
       "array t = (\<lambda>k. if True then map_option (normalized ops) (array u k) else array u k)
                       (MISSINGAA \<mapsto> replicate (feature_count ops s) (np_zero ops))"
    by blast
  from h(1) have "x = replicate (feature_count ops s) (np_zero ops)"
    by (simp add: any_residue_def)
  then show "array t ''X'' =
        Some (replicate (feature_count ops s)
               (np_div ops (np_zero ops)
                  (np_sum ops (replicate (feature_count ops s) (np_zero ops)))))"
    by (simp add: h(2,3) MISSINGAA_def normalized_replicate)
qed

theorem zero_sum_no_failure_witness:
  "\<not> isl (res_to_feature_helper exact_arith table8 True False) \<and>
   array (projr (res_to_feature_helper exact_arith table8 True False)) ''X'' =
     Some [xdiv (Fin 0) (Fin 0), xdiv (Fin 0) (Fin 0)]"
proof -
  let ?H = "res_to_feature_helper exact_arith table8 True False"
  have r: "\<not> isl ?H" by code_simp
  then have h: "?H = Inr (projr ?H)" by simp
  have fc: "feature_count exact_arith table8 = 2" by code_simp
  have "xsum [Fin 0, Fin 0] = Fin 0" by (simp add: xsum_def)
  with zero_sum_no_failure[of exact_arith table8 False] h r show ?thesis
    by (simp add: fc exact_arith_sel numeral_2_eq_2)
qed

text \<open>
  The X entry that the expansion builds from \<^verbatim>\<open>table8\<close> with \<^verbatim>\<open>average\<close> off is the zero
  vector, its sum is zero, and with \<^verbatim>\<open>normalize\<close> on the function returns a table.
\<close>

theorem zero_sum_no_failure_counterexample:
  "array (projr (res_to_feature_helper exact_arith table8 False False)) ''X'' =
     Some [Fin 0, Fin 0] \<and>
   np_sum exact_arith [Fin 0, Fin 0] = Fin 0 \<and>
   \<not> isl (res_to_feature_helper exact_arith table8 True False)"
  by code_simp

section \<open>Renormalised entries\<close>

text \<open>
  What the loop of lines 158 to 160 does: every entry but that of the missing residue is
  the entry of the table built with \<^verbatim>\<open>normalize\<close> off, each component divided by the sum of
  that entry. No entry is left out and the sum is not looked at.
\<close>

lemma normalized_by_own_sum:
  assumes "res_to_feature_helper ops s True average = Inr t"
  shows "\<exists>u. res_to_feature_helper ops s False average = Inr u \<and>
           set (keys t) = set (keys u) \<and>
           (\<forall>k. k \<noteq> MISSINGAA \<longrightarrow> array t k = map_option (normalized ops) (array u k))"
proof -
  from helper_Inr[OF assms] obtain b fc u where
    h: "valid u" "res_to_feature_helper ops s False average = Inr (add_missing ops fc u)"
       "array t = (\<lambda>k. if True then map_option (normalized ops) (array u k) else array u k)
                       (MISSINGAA \<mapsto> replicate fc (np_zero ops))"
       "set (keys t) = insert MISSINGAA (set (keys u))"
    by blast
  have "set (keys t) = set (keys (add_missing ops fc u))"
    by (simp add: h(4) add_missing_def set_keys_store)
  moreover have "\<forall>k. k \<noteq> MISSINGAA \<longrightarrow>
      array t k = map_option (normalized ops) (array (add_missing ops fc u) k)"
    by (simp add: h(3) array_add_missing[OF h(1)])
  ultimately show ?thesis using h(2) by blast
qed

text \<open>
  Claim C5. The code does not keep it, against its own comment on line 157 (renormalize
  all distributions to sum to 1.0). Called on \<^verbatim>\<open>table8\<close> with \<^verbatim>\<open>normalize\<close> on and \<^verbatim>\<open>average\<close>
  off, the function returns a table; the X entry, the zero vector before the loop, has been
  divided by its sum 0 and is \<^verbatim>\<open>0/0\<close> in both components; the sum of the returned entry is
  NaN, which is not within \<^verbatim>\<open>1e-5\<close> of 1.
\<close>

theorem normalized_zero_sum_entry:
  "\<not> isl (res_to_feature_helper exact_arith table8 True False) \<and>
   array (projr (res_to_feature_helper exact_arith table8 False False)) ''X'' =
     Some [Fin 0, Fin 0] \<and>
   array (projr (res_to_feature_helper exact_arith table8 True False)) ''X'' =
     Some [NaN, NaN] \<and>
   np_sum exact_arith [NaN, NaN] = NaN \<and>
   \<not> near_one (np_sum exact_arith [NaN, NaN])"
  by code_simp

section \<open>Synonyms\<close>

text \<open>
  Claim C2, as the code has it. In every table that is built the entries of U and C, and of
  O and K, hold the same components. With \<^verbatim>\<open>normalize\<close> on they are different arrays, each
  made by its own division. With \<^verbatim>\<open>normalize\<close> off, U is bound to the very array that C is
  bound to, and O to that of K: the assignment \<^verbatim>\<open>aa_to_aadist['U'] = aa_to_aadist['C']\<close>
  copies the reference, not the array.
\<close>

theorem synonym_entries:
  assumes "res_to_feature_helper ops s nrm average = Inr t"
  shows "array t ''U'' = array t ''C'' \<and> array t ''C'' \<noteq> None \<and>
         array t ''O'' = array t ''K'' \<and> array t ''K'' \<noteq> None \<and>
         (nrm \<longrightarrow> address t ''U'' \<noteq> address t ''C'' \<and> address t ''O'' \<noteq> address t ''K'') \<and>
         (\<not> nrm \<longrightarrow> address t ''U'' = address t ''C'' \<and> address t ''O'' = address t ''K'')"
proof -
  from helper_Inr[OF assms] obtain b fc u where
    h: "valid b" "expand ops average fc b = Inr u" "valid u"
       "array t = (\<lambda>k. if nrm then map_option (normalized ops) (array u k) else array u k)
                       (MISSINGAA \<mapsto> replicate fc (np_zero ops))"
       "\<not> nrm \<longrightarrow> t = add_missing ops fc u"
       "nrm \<longrightarrow> (\<exists>n. normalize_all ops u (keys u) = Inr n \<and> t = add_missing ops fc n)"
    by blast
  from expand_Inr[OF h(2,1)] obtain c k x d n i l e q bm jm zm where
    x: "array b ''C'' = Some c" "array b ''K'' = Some k"
       "array u = (array b)(''U'' \<mapsto> c, ''O'' \<mapsto> k, ''X'' \<mapsto> x, ''B'' \<mapsto> bm,
                                ''J'' \<mapsto> jm, ''Z'' \<mapsto> zm)"
       "address u = (address b)(''U'' := address b ''C'', ''O'' := address b ''K'',
                                ''X'' \<mapsto> length (heap b), ''B'' \<mapsto> length (heap b) + 1,
                                ''J'' \<mapsto> length (heap b) + 2, ''Z'' \<mapsto> length (heap b) + 3)"
       "set (keys u) = set (keys b) \<union> {''U'', ''O'', ''X'', ''B'', ''J'', ''Z''}"
    by blast
  have au: "array u ''U'' = Some c" "array u ''C'' = Some c"
           "array u ''O'' = Some k" "array u ''K'' = Some k"
    by (simp_all add: x(1-3))
  have vals: "array t ''U'' = array t ''C''" "array t ''C'' \<noteq> None"
             "array t ''O'' = array t ''K''" "array t ''K'' \<noteq> None"
    by (simp_all add: h(4) au MISSINGAA_def)
  have du: "address u ''U'' = address u ''C''" "address u ''O'' = address u ''K''"
    by (simp_all add: x(4))
  have off: "address t ''U'' = address t ''C'' \<and> address t ''O'' = address t ''K''" if "\<not> nrm"
    using that h(5) du by (simp add: address_add_missing MISSINGAA_def)
  have on: "address t ''U'' \<noteq> address t ''C'' \<and> address t ''O'' \<noteq> address t ''K''" if nrm
  proof -
    from that h(6) obtain n where
      n: "normalize_all ops u (keys u) = Inr n" and t: "t = add_missing ops fc n"
      by blast
    have in_keys: "''U'' \<in> set (keys u)" "''C'' \<in> set (keys u)"
                  "''O'' \<in> set (keys u)" "''K'' \<in> set (keys u)"
      by (simp_all add: keys_array au)
    have "address n ''U'' \<noteq> address n ''C''"
      using h(3) n in_keys(1,2) by (rule normalize_keys_fresh) simp
    moreover have "address n ''O'' \<noteq> address n ''K''"
      using h(3) n in_keys(3,4) by (rule normalize_keys_fresh) simp
    ultimately show ?thesis by (simp add: t address_add_missing MISSINGAA_def)
  qed
  from vals off on show ?thesis by blast
qed

theorem synonym_entries_witness:
  "\<not> isl (res_to_feature_helper exact_arith table8 True True) \<and>
   array (projr (res_to_feature_helper exact_arith table8 True True)) ''U'' =
     Some [Fin (1 / 4), Fin (3 / 4)] \<and>
   array (projr (res_to_feature_helper exact_arith table8 True True)) ''C'' =
     Some [Fin (1 / 4), Fin (3 / 4)] \<and>
   address (projr (res_to_feature_helper exact_arith table8 True True)) ''U'' \<noteq>
     address (projr (res_to_feature_helper exact_arith table8 True True)) ''C''"
proof -
  let ?H = "res_to_feature_helper exact_arith table8 True True"
  have r: "\<not> isl ?H" by code_simp
  then have h: "?H = Inr (projr ?H)" by simp
  have c: "array (projr ?H) ''C'' = Some [Fin (1 / 4), Fin (3 / 4)]" by code_simp
  from synonym_entries[OF h] r c show ?thesis by simp
qed

text \<open>
  In the table built from \<^verbatim>\<open>table8\<close> with \<^verbatim>\<open>normalize\<close> off, U and C are bound to one
  array, the first of the heap, and O and K to the second.
\<close>

theorem synonym_entries_counterexample:
  "\<not> isl (res_to_feature_helper exact_arith table8 False False) \<and>
   address (projr (res_to_feature_helper exact_arith table8 False False)) ''U'' = Some 0 \<and>
   address (projr (res_to_feature_helper exact_arith table8 False False)) ''C'' = Some 0 \<and>
   address (projr (res_to_feature_helper exact_arith table8 False False)) ''O'' = Some 1 \<and>
   address (projr (res_to_feature_helper exact_arith table8 False False)) ''K'' = Some 1"
  by code_simp

section \<open>The entries of a table\<close>

text \<open>The keys after the loop are the keys before it and the residues of the data lines.\<close>

lemma parse_lines_keys:
  assumes "parse_lines ops st ls = Inr st'"
  shows "set (keys (fst st')) =
           set (keys (fst st)) \<union>
           set (concat (map (\<lambda>l. take 1 (split l)) (filter (\<lambda>l. \<not> comment l) ls)))"
  using assms
proof (induction ls arbitrary: st)
  case Nil
  then show ?case by simp
next
  case (Cons l ls)
  from Cons.prems obtain st1 where
    l: "parse_line ops st l = Inr st1" and ls: "parse_lines ops st1 ls = Inr st'"
    by (auto split: sum.splits)
  have "set (keys (fst st1)) =
          set (keys (fst st)) \<union> set (concat (map (\<lambda>l. take 1 (split l)) (filter (\<lambda>l. \<not> comment l) [l])))"
    using parse_line_Inr[OF l] by (auto simp: set_keys_store)
  with Cons.IH[OF ls] show ?case by auto
qed

text \<open>
  When every data line has \<open>n\<close> fields after the residue, every row has \<open>n\<close> components
  and \<^verbatim>\<open>feature_count\<close> is \<open>n\<close> once a data line has been read.
\<close>

lemma parse_lines_uniform:
  assumes "parse_lines ops st ls = Inr st'" "valid (fst st)"
    and "\<forall>l\<in>set ls. \<not> comment l \<longrightarrow> length (split l) = Suc n"
    and "\<forall>k v. array (fst st) k = Some v \<longrightarrow> length v = n"
    and "keys (fst st) = [] \<or> snd st = n"
  shows "(\<forall>k v. array (fst st') k = Some v \<longrightarrow> length v = n) \<and>
         (keys (fst st') = [] \<or> snd st' = n)"
  using assms
proof (induction ls arbitrary: st)
  case Nil
  then show ?case by simp
next
  case (Cons l ls)
  from Cons.prems(1) obtain st1 where
    l: "parse_line ops st l = Inr st1" and ls: "parse_lines ops st1 ls = Inr st'"
    by (auto split: sum.splits)
  have v1: "valid (fst st1)" using l Cons.prems(2) by (rule parse_line_valid)
  from parse_line_Inr[OF l]
  have "(\<forall>k v. array (fst st1) k = Some v \<longrightarrow> length v = n) \<and>
        (keys (fst st1) = [] \<or> snd st1 = n)"
  proof (elim disjE exE conjE)
    assume "comment l" "st1 = st"
    then show ?thesis using Cons.prems(4,5) by simp
  next
    fix aa rest v
    assume d: "\<not> comment l" "split l = aa # rest" "floats ops rest = Inr v"
      "st1 = (store (fst st) aa v, length v)"
    from d(1,2) Cons.prems(3) have "length rest = n" by simp
    with floats_length[OF d(3)] have "length v = n" by simp
    then show ?thesis using Cons.prems(2,4) by (auto simp: d(4) array_store)
  qed
  then have "\<forall>k v. array (fst st1) k = Some v \<longrightarrow> length v = n"
    and "keys (fst st1) = [] \<or> snd st1 = n" by blast+
  moreover from Cons.prems(3)
  have "\<forall>l\<in>set ls. \<not> comment l \<longrightarrow> length (split l) = Suc n" by simp
  ultimately show ?case using ls v1 by (intro Cons.IH)
qed

lemma parse_uniform:
  assumes "parse ops s = Inr (b, fc)"
    and "\<forall>l\<in>set (data_lines s). length (split l) = Suc n"
  shows "set (keys b) = set (residues s)"
    and "\<forall>k v. array b k = Some v \<longrightarrow> length v = n"
    and "keys b = [] \<or> fc = n"
proof -
  from assms(1) have p: "parse_lines ops (empty_table, 0) (readlines s) = Inr (b, fc)"
    by (simp add: parse_def)
  from parse_lines_keys[OF p] show "set (keys b) = set (residues s)"
    by (simp add: residues_def data_lines_def keys_def empty_table_def)
  have "(\<forall>k v. array (fst (b, fc)) k = Some v \<longrightarrow> length v = n) \<and>
        (keys (fst (b, fc)) = [] \<or> snd (b, fc) = n)"
    using p _ _ _ _
  proof (rule parse_lines_uniform)
    show "valid (fst (empty_table, 0))" by (simp add: valid_empty)
    show "\<forall>l\<in>set (readlines s). \<not> comment l \<longrightarrow> length (split l) = Suc n"
      using assms(2) by (simp add: data_lines_def)
    show "\<forall>k v. array (fst (empty_table, 0)) k = Some v \<longrightarrow> length v = n"
      by (simp add: array_def address_def empty_table_def)
    show "keys (fst (empty_table, 0)) = [] \<or> snd (empty_table, 0) = n"
      by (simp add: keys_def empty_table_def)
  qed
  then show "\<forall>k v. array b k = Some v \<longrightarrow> length v = n" and "keys b = [] \<or> fc = n"
    by simp_all
qed

lemma length_mean2: "length v = length w \<Longrightarrow> length (mean2 ops v w) = length v"
  by (simp add: mean2_def)

lemma length_normalized: "length (normalized ops v) = length v"
  by (simp add: normalized_def)

lemma length_any_residue: "any_residue ops average fc = Inr x \<Longrightarrow> length x = fc"
  by (auto simp: any_residue_def split: if_splits)


lemma card_27:
  "card (set standard \<union> {''U'', ''O'', ''X'', ''B'', ''J'', ''Z'', MISSINGAA}) = 27"
  by (simp add: standard_def MISSINGAA_def)

text \<open>
  Claim C3, as the code has it. When the data lines of the text name the twenty standard
  residues and no other, and each of them has \<open>n\<close> numeric fields, a table that is built
  has 27 entries, the twenty residues, U, O, X, B, J, Z and the missing residue, and every
  vector in it has \<open>n\<close> components, which is also \<^verbatim>\<open>feature_count\<close>.
\<close>

theorem table_entries:
  assumes "res_to_feature_helper ops s nrm average = Inr t"
    and "set (residues s) = set standard"
    and "\<forall>l\<in>set (data_lines s). length (split l) = Suc n"
  shows "length (dict t) = 27 \<and>
         set (keys t) = set standard \<union> {''U'', ''O'', ''X'', ''B'', ''J'', ''Z'', MISSINGAA} \<and>
         feature_count ops s = n \<and>
         (\<forall>k\<in>set (keys t). \<exists>v. array t k = Some v \<and> length v = n)"
proof -
  let ?fc = "feature_count ops s"
  from helper_arrays[OF assms(1)] obtain b u c k x d m i l e q bm jm zm where
    h: "parse ops s = Inr (b, ?fc)" "any_residue ops average ?fc = Inr x"
       "array b ''C'' = Some c" "array b ''K'' = Some k"
       "array b ''D'' = Some d" "array b ''N'' = Some m" "mean_rows ops d m = Inr bm"
       "array b ''I'' = Some i" "array b ''L'' = Some l" "mean_rows ops i l = Inr jm"
       "array b ''E'' = Some e" "array b ''Q'' = Some q" "mean_rows ops e q = Inr zm"
       "array u = (array b)(''U'' \<mapsto> c, ''O'' \<mapsto> k, ''X'' \<mapsto> x, ''B'' \<mapsto> bm,
                                ''J'' \<mapsto> jm, ''Z'' \<mapsto> zm)"
       "array t = (\<lambda>k. if nrm then map_option (normalized ops) (array u k) else array u k)
                       (MISSINGAA \<mapsto> replicate ?fc (np_zero ops))"
       "set (keys t) = set (keys b) \<union> {''U'', ''O'', ''X'', ''B'', ''J'', ''Z'', MISSINGAA}"
    by blast
  from parse_uniform[OF h(1) assms(3)] have
    kb: "set (keys b) = set (residues s)" and
    lb: "\<forall>k v. array b k = Some v \<longrightarrow> length v = n" and
    fb: "keys b = [] \<or> ?fc = n"
    by blast+
  have "set (keys b) \<noteq> {}" by (simp add: kb assms(2) standard_def)
  with fb have fc: "?fc = n" by auto
  have ks: "set (keys t) = set standard \<union> {''U'', ''O'', ''X'', ''B'', ''J'', ''Z'', MISSINGAA}"
    by (simp add: h(16) kb assms(2))
  from helper_Inr[OF assms(1)] have "valid t" by blast
  then have "distinct (keys t)" by (rule valid_distinct_keys)
  then have "length (keys t) = card (set (keys t))" by (simp add: distinct_card)
  then have "length (keys t) = 27" by (simp only: ks card_27)
  then have len: "length (dict t) = 27" by (simp add: keys_def)
  have lx: "length x = n" using length_any_residue[OF h(2)] fc by simp
  have lens: "length c = n" "length k = n" "length d = n" "length m = n" "length i = n"
    "length l = n" "length e = n" "length q = n"
    using lb h(3-6,8,9,11,12) by blast+
  have lm: "length bm = n" "length jm = n" "length zm = n"
    using h(7,10,13) lens by (auto simp: mean_rows_def length_mean2)
  have lu: "length v = n" if "array u k' = Some v" for k' v
    using that lb lx lens lm by (auto simp: h(14) split: if_splits)
  have lt: "\<exists>v. array t k' = Some v \<and> length v = n" if "k' \<in> set (keys t)" for k'
  proof (cases "k' = MISSINGAA")
    case True
    then show ?thesis by (simp add: h(15) fc)
  next
    case False
    from that obtain w where w: "array t k' = Some w" by (auto simp: keys_array)
    with False obtain v where v: "array u k' = Some v" and wv: "w = (if nrm then normalized ops v else v)"
      by (cases nrm) (auto simp: h(15))
    from lu[OF v] have "length w = n" by (simp add: wv length_normalized)
    with w show ?thesis by simp
  qed
  from len ks fc lt show ?thesis by blast
qed

theorem table_entries_witness:
  "\<not> isl (res_to_feature_helper exact_arith table20 True True) \<and>
   length (dict (projr (res_to_feature_helper exact_arith table20 True True))) = 27 \<and>
   feature_count exact_arith table20 = 1 \<and>
   array (projr (res_to_feature_helper exact_arith table20 True True)) ''X'' = Some [Fin 1]"
proof -
  let ?H = "res_to_feature_helper exact_arith table20 True True"
  have r: "\<not> isl ?H" by code_simp
  then have h: "?H = Inr (projr ?H)" by simp
  have s: "set (residues table20) = set standard" by code_simp
  have n: "\<forall>l\<in>set (data_lines table20). length (split l) = Suc 1" by code_simp
  have x: "array (projr ?H) ''X'' = Some [Fin 1]" by code_simp
  from table_entries[OF h s n] r x show ?thesis by simp
qed

text \<open>
  The table built from \<^verbatim>\<open>table8\<close> has 15 entries. In the table built from \<^verbatim>\<open>ragged8\<close>,
  whose first row has two numeric fields, \<^verbatim>\<open>feature_count\<close> is 1, the number of fields of
  the last row, and the X entry has one component while the C entry has two.
\<close>

theorem table_entries_counterexample:
  "\<not> isl (res_to_feature_helper exact_arith table8 False False) \<and>
   length (dict (projr (res_to_feature_helper exact_arith table8 False False))) = 15 \<and>
   \<not> isl (res_to_feature_helper exact_arith ragged8 False False) \<and>
   take 1 (data_lines ragged8) = [''C 1 3\<newline>''] \<and>
   feature_count exact_arith ragged8 = 1 \<and>
   array (projr (res_to_feature_helper exact_arith ragged8 False False)) ''X'' = Some [Fin 0] \<and>
   array (projr (res_to_feature_helper exact_arith ragged8 False False)) ''C'' =
     Some [Fin 1, Fin 3]"
  by code_simp

section \<open>Residues missing from the raw table\<close>

lemma add_synonym_absent: "address t old = None \<Longrightarrow> add_synonym new old t = Inl (KeyError old)"
  by (simp add: add_synonym_def getitem_def)

lemma add_synonym_present:
  "address t old = Some a \<Longrightarrow> add_synonym new old t = Inr (setitem t new a)"
  by (simp add: add_synonym_def getitem_def)

lemma add_any_present:
  "average \<longrightarrow> 0 < fc \<Longrightarrow> \<exists>x. add_any ops average fc t = Inr (store t ''X'' x)"
  by (auto simp: add_any_def any_residue_def)

lemma add_mean_absent1: "address t k1 = None \<Longrightarrow> add_mean ops new k1 k2 t = Inl (KeyError k1)"
  by (simp add: add_mean_def getitem_def)

lemma add_mean_absent2:
  "address t k1 = Some a \<Longrightarrow> address t k2 = None \<Longrightarrow>
   add_mean ops new k1 k2 t = Inl (KeyError k2)"
  by (simp add: add_mean_def getitem_def)

lemma add_mean_present:
  "array t k1 = Some v \<Longrightarrow> array t k2 = Some w \<Longrightarrow> length v = length w \<Longrightarrow>
   add_mean ops new k1 k2 t = Inr (store t new (mean2 ops v w))"
  by (auto simp: add_mean_def getitem_def array_def mean_rows_def split: option.splits)

lemma expand_first_missing:
  assumes v: "valid b"
    and avg: "average \<longrightarrow> 0 < fc"
    and uni: "\<forall>k v. array b k = Some v \<longrightarrow> length v = fc"
    and f: "find (\<lambda>k. k \<notin> set (keys b)) required = Some k"
  shows "expand ops average fc b = Inl (KeyError k)"
proof -
  have absent: "k' \<notin> set (keys b) \<longleftrightarrow> address b k' = None" for k'
    by (simp add: keys_address)
  show ?thesis
  proof (cases "address b ''C''")
    case None
    with f have "k = ''C''" by (simp add: required_def absent)
    then show ?thesis by (simp add: expand_def and_then_def add_synonym_absent None)
  next
    case C: (Some ac)
    define t1 where "t1 = setitem b ''U'' ac"
    have s1: "add_synonym ''U'' ''C'' b = Inr t1" by (simp add: t1_def add_synonym_present C)
    have lt: "ac < length (heap b)" using v C by (rule address_lt)
    have v1: "valid t1" unfolding t1_def using v lt by (rule valid_setitem)
    have d1: "address t1 k' = address b k'" if "k' \<in> set required" for k'
      using that by (auto simp: t1_def address_setitem required_def)
    have a1: "array t1 k' = array b k'" if "k' \<in> set required" for k'
      using that by (auto simp: t1_def array_setitem required_def)
    show ?thesis
    proof (cases "address b ''K''")
      case None
      with f C have "k = ''K''" by (simp add: required_def absent)
      then show ?thesis
        by (simp add: expand_def and_then_def s1 add_synonym_absent d1 required_def None)
    next
      case K: (Some ak)
      define t2 where "t2 = setitem t1 ''O'' ak"
      have s2: "add_synonym ''O'' ''K'' t1 = Inr t2"
        by (simp add: t2_def add_synonym_present d1 required_def K)
      have "ak < length (heap t1)" using v K by (simp add: t1_def heap_setitem address_lt)
      with v1 have v2: "valid t2" unfolding t2_def by (rule valid_setitem)
      from add_any_present[OF avg, of ops t2] obtain x where
        s3: "add_any ops average fc t2 = Inr (store t2 ''X'' x)" by blast
      define t3 where "t3 = store t2 ''X'' x"
      have v3: "valid t3" unfolding t3_def using v2 by (rule valid_store)
      have d3: "address t3 k' = address b k'" if "k' \<in> set required" for k'
        using that d1[OF that]
        by (auto simp: t3_def t2_def address_store address_setitem required_def)
      have a3: "array t3 k' = array b k'" if "k' \<in> set required" for k'
        using that a1[OF that] v2
        by (auto simp: t3_def t2_def array_store array_setitem required_def)
      have start: "expand ops average fc b =
          and_then (add_mean ops ''B'' ''D'' ''N'' t3) (\<lambda>t.
          and_then (add_mean ops ''J'' ''I'' ''L'' t) (\<lambda>t.
          add_mean ops ''Z'' ''E'' ''Q'' t))"
        by (simp add: expand_def and_then_def s1 s2 s3 t3_def)
      show ?thesis
      proof (cases "address b ''D''")
        case None
        with f C K have "k = ''D''" by (simp add: required_def absent)
        then show ?thesis
          by (simp add: start and_then_def add_mean_absent1 d3 required_def None)
      next
        case D: (Some ad)
        show ?thesis
        proof (cases "address b ''N''")
          case None
          with f C K D have "k = ''N''" by (simp add: required_def absent)
          then show ?thesis
            using add_mean_absent2[of t3 "''D''" ad "''N''" ops "''B''"]
            by (simp add: start and_then_def d3 required_def None D)
        next
          case N: (Some an)
          have "array b ''D'' = Some (heap b ! ad)" "array b ''N'' = Some (heap b ! an)"
            using D N by (simp_all add: address_array)
          moreover from this uni have "length (heap b ! ad) = length (heap b ! an)" by simp
          ultimately have s4: "add_mean ops ''B'' ''D'' ''N'' t3 =
              Inr (store t3 ''B'' (mean2 ops (heap b ! ad) (heap b ! an)))"
            by (intro add_mean_present) (simp_all add: a3 required_def)
          define t4 where "t4 = store t3 ''B'' (mean2 ops (heap b ! ad) (heap b ! an))"
          have v4: "valid t4" unfolding t4_def using v3 by (rule valid_store)
          have d4: "address t4 k' = address b k'" if "k' \<in> set required" for k'
            using that d3[OF that] by (auto simp: t4_def address_store required_def)
          have a4: "array t4 k' = array b k'" if "k' \<in> set required" for k'
            using that a3[OF that] v3 by (auto simp: t4_def array_store required_def)
          have step4: "expand ops average fc b =
              and_then (add_mean ops ''J'' ''I'' ''L'' t4) (\<lambda>t.
              add_mean ops ''Z'' ''E'' ''Q'' t)"
            by (simp add: start and_then_def s4 t4_def)
          show ?thesis
          proof (cases "address b ''I''")
            case None
            with f C K D N have "k = ''I''" by (simp add: required_def absent)
            then show ?thesis
              by (simp add: step4 and_then_def add_mean_absent1 d4 required_def None)
          next
            case I: (Some ai)
            show ?thesis
            proof (cases "address b ''L''")
              case None
              with f C K D N I have "k = ''L''" by (simp add: required_def absent)
              then show ?thesis
                using add_mean_absent2[of t4 "''I''" ai "''L''" ops "''J''"]
                by (simp add: step4 and_then_def d4 required_def None I)
            next
              case L: (Some al)
              have "array b ''I'' = Some (heap b ! ai)" "array b ''L'' = Some (heap b ! al)"
                using I L by (simp_all add: address_array)
              moreover from this uni have "length (heap b ! ai) = length (heap b ! al)" by simp
              ultimately have s5: "add_mean ops ''J'' ''I'' ''L'' t4 =
                  Inr (store t4 ''J'' (mean2 ops (heap b ! ai) (heap b ! al)))"
                by (intro add_mean_present) (simp_all add: a4 required_def)
              define t5 where "t5 = store t4 ''J'' (mean2 ops (heap b ! ai) (heap b ! al))"
              have d5: "address t5 k' = address b k'" if "k' \<in> set required" for k'
                using that d4[OF that] by (auto simp: t5_def address_store required_def)
              have step5: "expand ops average fc b = add_mean ops ''Z'' ''E'' ''Q'' t5"
                by (simp add: step4 and_then_def s5 t5_def)
              show ?thesis
              proof (cases "address b ''E''")
                case None
                with f C K D N I L have "k = ''E''" by (simp add: required_def absent)
                then show ?thesis
                  by (simp add: step5 add_mean_absent1 d5 required_def None)
              next
                case E: (Some ae)
                show ?thesis
                proof (cases "address b ''Q''")
                  case None
                  with f C K D N I L E have "k = ''Q''" by (simp add: required_def absent)
                  then show ?thesis
                    using add_mean_absent2[of t5 "''E''" ae "''Q''" ops "''Z''"]
                    by (simp add: step5 d5 required_def None E)
                next
                  case Q: (Some aq)
                  with f C K D N I L E show ?thesis by (simp add: required_def absent)
                qed
              qed
            qed
          qed
        qed
      qed
    qed
  qed
qed


text \<open>
  Claim C7, as the code has it. When the parsed mapping lacks one of C, K, D, N, I, L, E, Q,
  no table is returned. The lookups are made in that order, so the exception is the
  KeyError of the first residue that is absent, provided no step before that lookup
  raises: this holds when every parsed vector has \<^verbatim>\<open>feature_count\<close> components and, with
  \<^verbatim>\<open>average\<close> on, \<^verbatim>\<open>feature_count\<close> is not zero.
\<close>

theorem missing_base_residue:
  assumes "parse ops s = Inr (b, fc)"
    and "find (\<lambda>k. k \<notin> set (keys b)) required = Some k"
  shows "k \<in> set required \<and> k \<notin> set (keys b) \<and>
         (\<exists>e. res_to_feature_helper ops s nrm average = Inl e) \<and>
         ((average \<longrightarrow> 0 < fc) \<and> (\<forall>k' v. array b k' = Some v \<longrightarrow> length v = fc) \<longrightarrow>
            res_to_feature_helper ops s nrm average = Inl (KeyError k))"
proof (intro conjI impI)
  from assms(2) show "k \<in> set required" and "k \<notin> set (keys b)"
    by (auto simp: find_Some_iff)
next
  show "\<exists>e. res_to_feature_helper ops s nrm average = Inl e"
  proof (cases "res_to_feature_helper ops s nrm average")
    case (Inl e)
    then show ?thesis by blast
  next
    case (Inr t)
    from helper_arrays[OF Inr] assms(1) have "\<forall>k'\<in>set required. array b k' \<noteq> None"
      by (auto simp: required_def)
    then have "find (\<lambda>k. k \<notin> set (keys b)) required = None"
      by (simp add: find_None_iff keys_array)
    with assms(2) show ?thesis by simp
  qed
next
  assume a: "(average \<longrightarrow> 0 < fc) \<and> (\<forall>k' v. array b k' = Some v \<longrightarrow> length v = fc)"
  have "valid b" using assms(1) by (rule parse_valid)
  with a assms(2) have "expand ops average fc b = Inl (KeyError k)"
    by (intro expand_first_missing) simp_all
  then show "res_to_feature_helper ops s nrm average = Inl (KeyError k)"
    by (simp add: res_to_feature_helper_def and_then_def assms(1))
qed

theorem missing_base_residue_witness:
  "res_to_feature_helper exact_arith ''C 1\<newline>K 1\<newline>'' True True = Inl (KeyError ''D'')"
proof -
  let ?s = "''C 1\<newline>K 1\<newline>''"
  let ?b = "\<lparr>dict = [(''C'', 0), (''K'', 1)], heap = [[Fin 1], [Fin 1]]\<rparr> :: xfloat table"
  have p: "parse exact_arith ?s = Inr (?b, 1)" by code_simp
  have f: "find (\<lambda>k. k \<notin> set (keys ?b)) required = Some ''D''" by code_simp
  have u: "(True \<longrightarrow> 0 < (1::nat)) \<and> (\<forall>k' v. array ?b k' = Some v \<longrightarrow> length v = 1)"
    by (auto simp: array_def address_def split: if_splits)
  from missing_base_residue[OF p f, of True True] u show ?thesis by blast
qed

text \<open>
  The text below leaves D out and its last row has no numeric field. With \<^verbatim>\<open>average\<close> on,
  \<^verbatim>\<open>1.0/feature_count\<close> raises before D is looked up.
\<close>

theorem missing_base_residue_counterexample:
  "\<not> isl (parse exact_arith ''C 1\<newline>K\<newline>'') \<and>
   ''D'' \<notin> set (keys (fst (projr (parse exact_arith ''C 1\<newline>K\<newline>'')))) \<and>
   feature_count exact_arith ''C 1\<newline>K\<newline>'' = 0 \<and>
   res_to_feature_helper exact_arith ''C 1\<newline>K\<newline>'' True True = Inl ZeroDivisionError"
  by code_simp

section \<open>The feature count\<close>

text \<open>
  \<^verbatim>\<open>feature_count\<close> is set by every data line, so after the loop it is the number of numeric
  fields of the last one.
\<close>

lemma parse_lines_feature_count:
  assumes "parse_lines ops st ls = Inr st'"
  shows "snd st' =
           (if filter (\<lambda>l. \<not> comment l) ls = [] then snd st
            else length (split (last (filter (\<lambda>l. \<not> comment l) ls))) - 1)"
  using assms
proof (induction ls arbitrary: st)
  case Nil
  then show ?case by simp
next
  case (Cons l ls)
  from Cons.prems obtain st1 where
    l: "parse_line ops st l = Inr st1" and ls: "parse_lines ops st1 ls = Inr st'"
    by (auto split: sum.splits)
  from parse_line_Inr[OF l] show ?case
  proof (elim disjE exE conjE)
    assume "comment l" "st1 = st"
    with Cons.IH[OF ls] show ?thesis by simp
  next
    fix aa rest v
    assume d: "\<not> comment l" "split l = aa # rest" "floats ops rest = Inr v"
      "st1 = (store (fst st) aa v, length v)"
    from floats_length[OF d(3)] d(2) have "snd st1 = length (split l) - 1" by (simp add: d(4))
    with Cons.IH[OF ls] d(1) show ?thesis by simp
  qed
qed

lemma feature_count_last_row:
  assumes "parse ops s = Inr (b, fc)" "data_lines s \<noteq> []"
  shows "feature_count ops s = length (split (last (data_lines s))) - 1"
proof -
  from assms(1) have "parse_lines ops (empty_table, 0) (readlines s) = Inr (b, fc)"
    by (simp add: parse_def)
  from parse_lines_feature_count[OF this] assms(2) have
    "fc = length (split (last (data_lines s))) - 1"
    by (simp add: data_lines_def)
  then show ?thesis by (simp add: feature_count_parse[OF assms(1)])
qed

end
